theory Spec2Isabelle
  imports Main "HOL-Library.Word"
begin

section \<open>IlmThreadPool.cpp: the thread pool of IlmThread\<close>

text \<open>
  The source is one translation unit: \<open>TaskGroup::Data\<close>, \<open>ThreadPool::Data\<close>,
  \<open>WorkerThread::run\<close> and the \<open>ThreadPool\<close> member functions. The classes \<open>Mutex\<close>,
  \<open>Lock\<close>, \<open>Semaphore\<close> and \<open>Thread\<close> come from headers that are not part of the file;
  they are used with their usual meaning: a counting semaphore whose \<open>wait\<close> blocks while
  the count is zero, a non-recursive mutex, a scoped \<open>Lock\<close> that releases at the end of
  its block.
\<close>

subsection \<open>Semaphore\<close>

text \<open>
  A semaphore is its count. \<open>post\<close> adds one. \<open>wait\<close> takes one when the count is
  positive; on a zero count the caller cannot proceed, which is the value \<open>None\<close>.
\<close>

type_synonym Semaphore = nat

definition post :: "Semaphore \<Rightarrow> Semaphore" where
  "post c = c + 1"

definition wait :: "Semaphore \<Rightarrow> Semaphore option" where
  "wait c = (if 0 < c then Some (c - 1) else None)"

subsection \<open>Machine integers, and how a call ends\<close>

text \<open>\<open>int\<close> is 32 bits wide; \<open>sint\<close> reads its value.\<close>

type_synonym cint = "32 word"

datatype exc = ArgExc

text \<open>
  How a call ends: it returns, it leaves a loop by \<open>break\<close>, it throws, it blocks for
  good inside a semaphore, or it does what C++ leaves undefined (a task whose group
  is not a live object, \<open>front ()\<close> of an empty list).
\<close>

datatype outcome = Returns | Breaks | Throws exc | Blocks | Undefined

subsection \<open>TaskGroup::Data (lines 71-111)\<close>

text \<open>
  \<open>numPending\<close> is a C++ \<open>int\<close>: 32 bits, read by \<open>sint\<close>. Its \<open>++\<close> and \<open>--\<close> are
  those of the machine: past \<open>INT_MAX\<close> the increment arrives at \<open>INT_MIN\<close>. (C++
  leaves that overflow undefined; the wrap is what the compiled increment does.)
\<close>

record TaskGroup_Data =
  isEmpty :: Semaphore
  numPending :: cint

definition INT_MAX :: int where
  "INT_MAX = 2 ^ 31 - 1"

text \<open>The constructor: \<open>isEmpty (1), numPending (0)\<close>.\<close>

definition TaskGroup_Data_new :: TaskGroup_Data where
  "TaskGroup_Data_new = \<lparr>isEmpty = 1, numPending = 0\<rparr>"

text \<open>
  \<open>if (numPending++ == 0) isEmpty.wait ();\<close>  The test reads the old value, the
  increment happens in either case. \<open>Blocks\<close>: the caller is inside \<open>wait\<close> on a
  closed gate, the increment made.
\<close>

definition tg_addTask :: "TaskGroup_Data \<Rightarrow> outcome \<times> TaskGroup_Data" where
  "tg_addTask g =
     (let old = numPending g;
          g1 = g\<lparr>numPending := old + 1\<rparr>
      in if old = 0
         then (case wait (isEmpty g1) of
                 None \<Rightarrow> (Blocks, g1)
               | Some c \<Rightarrow> (Returns, g1\<lparr>isEmpty := c\<rparr>))
         else (Returns, g1))"

text \<open>\<open>if (--numPending == 0) isEmpty.post ();\<close>  The test reads the new value.\<close>

definition tg_removeTask :: "TaskGroup_Data \<Rightarrow> TaskGroup_Data" where
  "tg_removeTask g =
     (let g1 = g\<lparr>numPending := numPending g - 1\<rparr>
      in if numPending g1 = 0 then g1\<lparr>isEmpty := post (isEmpty g1)\<rparr> else g1)"

text \<open>
  The destructor \<open>~Data\<close>: \<open>isEmpty.wait ()\<close>. It returns only when it could take the
  semaphore; \<open>None\<close> is the caller blocked.
\<close>

definition tg_destroy :: "TaskGroup_Data \<Rightarrow> TaskGroup_Data option" where
  "tg_destroy g =
     (case wait (isEmpty g) of None \<Rightarrow> None | Some c \<Rightarrow> Some (g\<lparr>isEmpty := c\<rparr>))"

text \<open>
  The gate of a group is open when a \<open>wait\<close> on \<open>isEmpty\<close> would go through. The
  group invariant: the count is not negative, the semaphore holds at most one token, and
  the gate is open exactly when nothing is pending.
\<close>

definition gate_open :: "TaskGroup_Data \<Rightarrow> bool" where
  "gate_open g = (0 < isEmpty g)"

definition tg_inv :: "TaskGroup_Data \<Rightarrow> bool" where
  "tg_inv g =
     (0 \<le> sint (numPending g) \<and> isEmpty g \<le> 1 \<and> (gate_open g = (numPending g = 0)))"

subsection \<open>Tasks, mutexes and what a thread does\<close>

text \<open>
  A \<open>Task\<close> object is known by its address and carries the address of its group
  (\<open>Task::_group\<close>, read by \<open>Task::group ()\<close>). \<open>execute\<close> is the caller's code; the
  pool knows nothing of it, and the model records that it ran, and under which locks.
\<close>

record Task =
  task_addr :: nat
  group :: nat

datatype Mutex = TaskMutex | ThreadMutex | StopMutex

datatype Sem = TaskSemaphore | ThreadSemaphore

text \<open>
  The actions of one thread, in the order it performs them. \<open>Execute t ms\<close> is the
  call \<open>t->execute ()\<close> made while the thread holds the mutexes \<open>ms\<close>.
\<close>

datatype action =
    Acquire Mutex
  | Release Mutex
  | Post Sem
  | Wait Sem
  | Start nat
  | Join nat
  | Execute Task "Mutex list"
  | Delete Task
  | GroupAddTask nat
  | GroupRemoveTask nat

subsection \<open>ThreadPool::Data (lines 114-191)\<close>

text \<open>
  The plain data of the pool. The two \<open>size_t\<close> counters are natural numbers: the
  thread counter never exceeds the \<open>int\<close> argument of \<open>setNumThreads\<close>, and the task
  counter the number of live \<open>Task\<close> objects, so neither wraps. A \<open>WorkerThread\<close>
  object is known by a number.
\<close>

record ThreadPool_Data =
  tasks :: "Task list"
  numTasks :: nat
  threads :: "nat list"
  numThreads :: nat
  stopping :: bool

text \<open>The constructor: \<open>numTasks (0), numThreads (0), stopping (false)\<close>, empty lists.\<close>

definition ThreadPool_Data_new :: ThreadPool_Data where
  "ThreadPool_Data_new =
     \<lparr>tasks = [], numTasks = 0, threads = [], numThreads = 0, stopping = False\<rparr>"

subsection \<open>The view of one thread\<close>

text \<open>
  A member function is modelled as the thread that calls it sees it: it transforms the
  pool's data and the \<open>TaskGroup\<close> objects, it holds mutexes, and it performs actions.
  \<open>data\<close> is \<open>*_data\<close> of the pool, \<open>groups\<close> the live \<open>TaskGroup::Data\<close> objects by
  address, \<open>held\<close> the mutexes the thread holds (latest first), \<open>trace\<close> its actions so
  far, \<open>fresh\<close> the number the next \<open>WorkerThread\<close> gets.

  The semaphores \<open>taskSemaphore\<close> and \<open>threadSemaphore\<close> are shared with the worker
  threads, which post and wait on them at their own pace; the calling thread's view does
  not hold their counts. A \<open>post\<close> or \<open>wait\<close> on them, and the join inside
  \<open>delete\<close> of a \<open>WorkerThread\<close>, is an action of the trace, and the state after it is
  the state when that call has returned. The section on interleaved runs below has the
  counts, and the worker threads' own steps.
\<close>

record world =
  data :: ThreadPool_Data
  groups :: "nat \<Rightarrow> TaskGroup_Data option"
  held :: "Mutex list"
  trace :: "action list"
  fresh :: nat

definition emit :: "action \<Rightarrow> world \<Rightarrow> world" where
  "emit a w = w\<lparr>trace := trace w @ [a]\<rparr>"

text \<open>
  \<open>Lock lock (m)\<close>, \<open>lock.acquire ()\<close>. \<open>acquire\<close> is the mutex obtained: the state
  when the lock has been granted. \<open>lock\<close> is the attempt of a thread: \<open>Mutex\<close> is not
  recursive, so a thread that holds \<open>m\<close> already waits for itself, for good, which is
  \<open>None\<close>. (The wait for another thread to release \<open>m\<close> is not part of this view.)
  \<open>addTask\<close> and the worker loop are followed from the call on and use \<open>lock\<close>;
  \<open>setNumThreads\<close>, \<open>finish\<close> and \<open>numThreads ()\<close> are followed on the path on
  which their locks are granted.
\<close>

definition acquire :: "Mutex \<Rightarrow> world \<Rightarrow> world" where
  "acquire m w = emit (Acquire m) (w\<lparr>held := m # held w\<rparr>)"

definition lock :: "Mutex \<Rightarrow> world \<Rightarrow> world option" where
  "lock m w = (if m \<in> set (held w) then None else Some (acquire m w))"

text \<open>\<open>lock.release ()\<close>, and the end of the block of a \<open>Lock\<close>.\<close>

definition release :: "Mutex \<Rightarrow> world \<Rightarrow> world" where
  "release m w = emit (Release m) (w\<lparr>held := remove1 m (held w)\<rparr>)"

text \<open>\<open>task->group ()->_data->addTask ()\<close> and \<open>taskGroup->_data->removeTask ()\<close>.\<close>

definition group_addTask :: "nat \<Rightarrow> world \<Rightarrow> outcome \<times> world" where
  "group_addTask g w =
     (case groups w g of
        None \<Rightarrow> (Undefined, w)
      | Some d \<Rightarrow>
          (case tg_addTask d of
             (Returns, d') \<Rightarrow>
               (Returns, emit (GroupAddTask g) (w\<lparr>groups := (groups w)(g \<mapsto> d')\<rparr>))
           | (oc, d') \<Rightarrow> (oc, w\<lparr>groups := (groups w)(g \<mapsto> d')\<rparr>)))"

definition group_removeTask :: "nat \<Rightarrow> world \<Rightarrow> outcome \<times> world" where
  "group_removeTask g w =
     (case groups w g of
        None \<Rightarrow> (Undefined, w)
      | Some d \<Rightarrow>
          (Returns, emit (GroupRemoveTask g) (w\<lparr>groups := (groups w)(g \<mapsto> tg_removeTask d)\<rparr>)))"

subsection \<open>ThreadPool::Data::stop, stopped, finish (lines 130-176)\<close>

definition stop :: "world \<Rightarrow> world" where
  "stop w =
     (let w1 = acquire StopMutex w;
          w2 = w1\<lparr>data := (data w1)\<lparr>stopping := True\<rparr>\<rparr>
      in release StopMutex w2)"

definition stopped :: "world \<Rightarrow> (bool \<times> world) option" where
  "stopped w =
     (case lock StopMutex w of
        None \<Rightarrow> None
      | Some w1 \<Rightarrow> Some (stopping (data w1), release StopMutex w1))"

text \<open>
  \<open>for (int i = 0; i < numThreads; i++) { taskSemaphore.post (); threadSemaphore.wait (); }\<close>
\<close>

function signal_threads :: "nat \<Rightarrow> world \<Rightarrow> world" where
  "signal_threads i w =
     (if i < numThreads (data w)
      then signal_threads (i + 1) (emit (Wait ThreadSemaphore) (emit (Post TaskSemaphore) w))
      else w)"
  by pat_completeness auto
termination
  by (relation "measure (\<lambda>(i, w). numThreads (data w) - i)") (auto simp: emit_def)

text \<open>The loop over \<open>threads\<close> with \<open>delete (*i)\<close>: the destructor joins the thread.\<close>

definition join_threads :: "world \<Rightarrow> world" where
  "join_threads w = fold (\<lambda>i. emit (Join i)) (threads (data w)) w"

definition finish :: "world \<Rightarrow> world" where
  "finish w =
     (let w1 = stop w;
          w2 = signal_threads 0 w1;
          w3 = join_threads w2;
          w4 = acquire TaskMutex w3;
          w5 = acquire StopMutex w4;
          w6 = w5\<lparr>data := (data w5)\<lparr>threads := [], tasks := [], numThreads := 0,
                                     numTasks := 0, stopping := False\<rparr>\<rparr>;
          w7 = release StopMutex w6
      in release TaskMutex w7)"

subsection \<open>ThreadPool::numThreads and setNumThreads (lines 288-327)\<close>

text \<open>
  \<open>numThreads ()\<close> returns the \<open>size_t\<close> counter as an \<open>int\<close>: the conversion keeps
  the low 32 bits.
\<close>

definition ThreadPool_numThreads :: "world \<Rightarrow> cint \<times> world" where
  "ThreadPool_numThreads w =
     (let w1 = acquire ThreadMutex w
      in (word_of_nat (numThreads (data w1)), release ThreadMutex w1))"

text \<open>
  \<open>_data->threads.push_back (new WorkerThread (_data)); _data->numThreads++;\<close>
  The constructor of \<open>WorkerThread\<close> starts the thread.
\<close>

definition add_thread :: "world \<Rightarrow> world" where
  "add_thread w =
     (let i = fresh w;
          w1 = emit (Start i) (w\<lparr>fresh := i + 1\<rparr>)
      in w1\<lparr>data := (data w1)\<lparr>threads := threads (data w1) @ [i],
                                numThreads := numThreads (data w1) + 1\<rparr>\<rparr>)"

text \<open>
  \<open>while (_data->numThreads < count) ...\<close>  The comparison is made in \<open>size_t\<close>; the
  loop is reached only with \<open>count \<ge> 0\<close>, whose conversion is its value.
\<close>

function add_threads :: "nat \<Rightarrow> world \<Rightarrow> world" where
  "add_threads count w =
     (if numThreads (data w) < count then add_threads count (add_thread w) else w)"
  by pat_completeness auto
termination
  by (relation "measure (\<lambda>(count, w). count - numThreads (data w))")
     (auto simp: add_thread_def emit_def Let_def)

definition setNumThreads :: "cint \<Rightarrow> world \<Rightarrow> outcome \<times> world" where
  "setNumThreads count w =
     (if sint count < 0 then (Throws ArgExc, w)
      else
        let n = nat (sint count);
            w1 = acquire ThreadMutex w;
            w2 = (if n > numThreads (data w1) then add_threads n w1
                  else if n < numThreads (data w1) then add_threads n (finish w1)
                  else w1)
        in (Returns, release ThreadMutex w2))"

subsection \<open>The ThreadPool constructor (lines 275-279)\<close>

text \<open>
  \<open>ThreadPool (unsigned nthreads) : _data (new Data ()) { setNumThreads (nthreads); }\<close>
  The argument of \<open>setNumThreads\<close> is an \<open>int\<close>: the \<open>unsigned\<close> value is converted,
  which keeps its 32 bits. The world given is where the object is built: its \<open>data\<close>
  becomes the new \<open>Data\<close>.
\<close>

type_synonym cunsigned = "32 word"

definition ThreadPool_new :: "cunsigned \<Rightarrow> world \<Rightarrow> outcome \<times> world" where
  "ThreadPool_new nthreads w = setNumThreads nthreads (w\<lparr>data := ThreadPool_Data_new\<rparr>)"

subsection \<open>ThreadPool::addTask (lines 330-356)\<close>

definition addTask :: "Task \<Rightarrow> world \<Rightarrow> outcome \<times> world" where
  "addTask task w =
     (case lock ThreadMutex w of
        None \<Rightarrow> (Blocks, w)
      | Some w1 \<Rightarrow>
          if numThreads (data w1) = 0
          then
            let w2 = emit (Execute task (held w1)) w1;
                w3 = emit (Delete task) w2
            in (Returns, release ThreadMutex w3)
          else
            (case lock TaskMutex w1 of
               None \<Rightarrow> (Blocks, w1)
             | Some w2 \<Rightarrow>
                 let w3 = w2\<lparr>data := (data w2)\<lparr>tasks := tasks (data w2) @ [task],
                                                numTasks := numTasks (data w2) + 1\<rparr>\<rparr>
                 in (case group_addTask (group task) w3 of
                       (Returns, w4) \<Rightarrow>
                         let w5 = release TaskMutex w4;
                             w6 = emit (Post TaskSemaphore) w5
                         in (Returns, release ThreadMutex w6)
                     | (oc, w4) \<Rightarrow> (oc, w4))))"

subsection \<open>WorkerThread::run (lines 205-237)\<close>

text \<open>
  One pass through the body of \<open>while (true)\<close>. \<open>Returns\<close>: the loop goes round
  again; \<open>Breaks\<close>: the thread leaves the loop and ends.
\<close>

definition run_body :: "world \<Rightarrow> outcome \<times> world" where
  "run_body w =
     (let w1 = emit (Wait TaskSemaphore) w
      in case lock TaskMutex w1 of
           None \<Rightarrow> (Blocks, w1)
         | Some w2 \<Rightarrow>
             if numTasks (data w2) > 0
             then
               (case tasks (data w2) of
                  [] \<Rightarrow> (Undefined, w2)
                | task # rest \<Rightarrow>
                    let taskGroup = group task;
                        w3 = w2\<lparr>data := (data w2)\<lparr>tasks := rest,
                                                   numTasks := numTasks (data w2) - 1\<rparr>\<rparr>;
                        w4 = release TaskMutex w3;
                        w5 = emit (Execute task (held w4)) w4
                    in (case lock TaskMutex w5 of
                          None \<Rightarrow> (Blocks, w5)
                        | Some w6 \<Rightarrow>
                            let w7 = emit (Delete task) w6
                            in (case group_removeTask taskGroup w7 of
                                  (Returns, w8) \<Rightarrow> (Returns, release TaskMutex w8)
                                | (oc, w8) \<Rightarrow> (oc, w8))))
             else
               (case stopped w2 of
                  None \<Rightarrow> (Blocks, w2)
                | Some (True, w3) \<Rightarrow> (Breaks, release TaskMutex w3)
                | Some (False, w3) \<Rightarrow> (Returns, release TaskMutex w3)))"

text \<open>
  \<open>run\<close>: the thread signals that it has started and loops. The loop has no bound of
  its own. \<open>run k\<close> follows the thread through at most \<open>k\<close> passes and gives the world
  it has reached: with \<open>None\<close> it is still in the loop, with \<open>Some\<close> it has left it
  (\<open>Returns\<close> after the \<open>break\<close>).
\<close>

fun run_loop :: "nat \<Rightarrow> world \<Rightarrow> outcome option \<times> world" where
  "run_loop 0 w = (None, w)"
| "run_loop (Suc k) w =
     (case run_body w of
        (Returns, w') \<Rightarrow> run_loop k w'
      | (Breaks, w') \<Rightarrow> (Some Returns, w')
      | (oc, w') \<Rightarrow> (Some oc, w'))"

definition run :: "nat \<Rightarrow> world \<Rightarrow> outcome option \<times> world" where
  "run k w = run_loop k (emit (Post ThreadSemaphore) w)"

subsection \<open>Reading a trace, and example states\<close>

text \<open>The mutexes held at each \<open>execute\<close> of a trace, in order.\<close>

fun execute_locks :: "action list \<Rightarrow> Mutex list list" where
  "execute_locks [] = []"
| "execute_locks (Execute t ms # as) = ms # execute_locks as"
| "execute_locks (a # as) = execute_locks as"

text \<open>
  \<open>world0\<close>: a new pool (no threads) and one new group at address 7, seen by a thread
  that holds no mutex. \<open>world3\<close>: the same with three idle workers. \<open>world_stopping\<close>:
  one worker, one queued task of group 7, and the stopping flag set, as a worker finds
  it during \<open>finish\<close>. \<open>world_busy\<close>: the same with the flag clear.
  \<open>world_nested\<close>: a new pool as the thread sees it that is inside the \<open>execute\<close> of
  a task it has given to \<open>addTask\<close>: it holds \<open>threadMutex\<close>.
\<close>

definition world0 :: world where
  "world0 = \<lparr>data = ThreadPool_Data_new, groups = [7 \<mapsto> TaskGroup_Data_new],
             held = [], trace = [], fresh = 0\<rparr>"

definition world3 :: world where
  "world3 = world0\<lparr>data := \<lparr>tasks = [], numTasks = 0, threads = [0, 1, 2], numThreads = 3,
                            stopping = False\<rparr>, fresh := 3\<rparr>"

definition task1 :: Task where
  "task1 = \<lparr>task_addr = 1, group = 7\<rparr>"

definition world_stopping :: world where
  "world_stopping =
     \<lparr>data = \<lparr>tasks = [task1], numTasks = 1, threads = [0], numThreads = 1, stopping = True\<rparr>,
      groups = [7 \<mapsto> \<lparr>isEmpty = 0, numPending = 1\<rparr>],
      held = [], trace = [], fresh = 1\<rparr>"

definition world_busy :: world where
  "world_busy = world_stopping\<lparr>data := (data world_stopping)\<lparr>stopping := False\<rparr>\<rparr>"


subsection \<open>Interleaved runs\<close>

text \<open>
  The threads of a program that uses the pool: the threads of the callers, numbered,
  and the worker threads, numbered as they are created. A run is a sequence of steps,
  each by one thread. A thread's position says which statement it executes next; a step
  executes it. A step that cannot be taken now (a \<open>wait\<close> on a semaphore at zero, a
  \<open>Lock\<close> on a held mutex, joining a thread that has not ended) is \<open>None\<close>.
\<close>

datatype thread = Caller nat | Worker nat

text \<open>Positions in \<open>WorkerThread::run\<close>, by source line.\<close>

datatype wpc =
    W_start             \<comment> \<open>209: \<open>threadSemaphore.post ()\<close>\<close>
  | W_wait              \<comment> \<open>214: \<open>taskSemaphore.wait ()\<close>\<close>
  | W_lock              \<comment> \<open>216: \<open>Lock taskLock (taskMutex)\<close>\<close>
  | W_test              \<comment> \<open>219-226, 233: test, pop and release, or \<open>stopped ()\<close>\<close>
  | W_execute Task      \<comment> \<open>227: \<open>task->execute ()\<close> is entered\<close>
  | W_executing Task    \<comment> \<open>227: \<open>task->execute ()\<close> returns\<close>
  | W_reacquire Task    \<comment> \<open>228: \<open>taskLock.acquire ()\<close>\<close>
  | W_retire Task       \<comment> \<open>230-232: delete, \<open>removeTask\<close>, end of block\<close>
  | W_exited            \<comment> \<open>\<open>run\<close> has returned\<close>

text \<open>What follows \<open>finish\<close>: the second loop of \<open>setNumThreads\<close>, or the end of \<open>~Data\<close>.\<close>

datatype cont = Regrow nat | Destroy

text \<open>
  Positions of a caller: not in a call, or inside \<open>addTask\<close> (A), \<open>setNumThreads\<close>
  (S), \<open>finish\<close> (F), \<open>ThreadPool::Data::~Data\<close> (P), \<open>TaskGroup::Data::~Data\<close> (D).
\<close>

datatype cpc =
    Idle
  | A_lock Task         \<comment> \<open>334: \<open>Lock lock (threadMutex)\<close>\<close>
  | A_test Task         \<comment> \<open>336: \<open>if (numThreads == 0)\<close>\<close>
  | A_execute Task      \<comment> \<open>338: \<open>task->execute ()\<close> is entered\<close>
  | A_executing Task    \<comment> \<open>338: \<open>task->execute ()\<close> returns\<close>
  | A_delete Task       \<comment> \<open>339: \<open>delete task\<close>, end of function\<close>
  | A_lockq Task        \<comment> \<open>345: \<open>Lock taskLock (taskMutex)\<close>\<close>
  | A_push Task         \<comment> \<open>348-351: push, count, group \<open>addTask\<close>, end of block\<close>
  | A_post Task         \<comment> \<open>354: \<open>taskSemaphore.post ()\<close>, end of function\<close>
  | S_lock nat          \<comment> \<open>304: \<open>Lock lock (threadMutex)\<close>\<close>
  | S_test nat          \<comment> \<open>306, 315: the two comparisons\<close>
  | S_grow nat bool     \<comment> \<open>309-313, 321-325: loop; the flag: reached through \<open>finish\<close>\<close>
  | F_stop cont         \<comment> \<open>132: \<open>stop ()\<close>\<close>
  | F_loop cont nat     \<comment> \<open>146-148: loop test, \<open>taskSemaphore.post ()\<close>\<close>
  | F_wait cont nat     \<comment> \<open>149: \<open>threadSemaphore.wait ()\<close>\<close>
  | F_join cont "nat list"  \<comment> \<open>153-157: \<open>delete (*i)\<close>; at the end \<open>Lock lock1 (taskMutex)\<close>\<close>
  | F_clear cont        \<comment> \<open>158-163: \<open>lock2\<close>, clear, reset, end of function\<close>
  | P_lock              \<comment> \<open>124: \<open>Lock lock (threadMutex)\<close>\<close>
  | D_wait nat          \<comment> \<open>88: \<open>isEmpty.wait ()\<close>\<close>

text \<open>
  What the pool did with tasks, in the order it happened, and \<open>Cleared\<close>: \<open>finish\<close>
  has cleared the lists of the pool.
\<close>

datatype event =
    Enqueued Task | Popped Task | Begun Task | Ended Task | Retired Task
  | Inline_begun Task | Inline_ended Task | Cleared

text \<open>
  The state of the program. \<open>pool\<close>, the two semaphores and the two mutexes (by their
  owner) are \<open>ThreadPool::Data\<close>; \<open>stopMutex\<close> has no field: each region under it is a
  single read or write of \<open>stopping\<close> and is part of one step. \<open>heap\<close> holds the live
  \<open>TaskGroup::Data\<close> objects by address. \<open>alive\<close>: the pool has not been destroyed.
  \<open>history\<close> records the run; no step reads it.
\<close>

record system =
  pool :: ThreadPool_Data
  taskSemaphore :: Semaphore
  threadSemaphore :: Semaphore
  taskMutex :: "thread option"
  threadMutex :: "thread option"
  heap :: "nat \<Rightarrow> TaskGroup_Data option"
  workers :: "nat \<Rightarrow> wpc option"
  callers :: "nat \<Rightarrow> cpc"
  next_worker :: nat
  alive :: bool
  history :: "event list"

text \<open>The program starts with a pool of no threads (\<open>g_threadPool (0)\<close>) and no group.\<close>

definition init :: system where
  "init = \<lparr>pool = ThreadPool_Data_new, taskSemaphore = 0, threadSemaphore = 0,
           taskMutex = None, threadMutex = None, heap = (\<lambda>g. None),
           workers = (\<lambda>w. None), callers = (\<lambda>c. Idle), next_worker = 0, alive = True,
           history = []\<rparr>"

definition at :: "nat \<Rightarrow> cpc \<Rightarrow> system \<Rightarrow> system" where
  "at c pc s = s\<lparr>callers := (callers s)(c := pc)\<rparr>"

definition wat :: "nat \<Rightarrow> wpc \<Rightarrow> system \<Rightarrow> system" where
  "wat w pc s = s\<lparr>workers := (workers s)(w \<mapsto> pc)\<rparr>"

definition logged :: "event \<Rightarrow> system \<Rightarrow> system" where
  "logged e s = s\<lparr>history := history s @ [e]\<rparr>"

subsection \<open>Steps of a worker thread\<close>

fun worker_step :: "nat \<Rightarrow> wpc \<Rightarrow> system \<Rightarrow> system option" where
  "worker_step w W_start s =
     Some (wat w W_wait (s\<lparr>threadSemaphore := post (threadSemaphore s)\<rparr>))"
| "worker_step w W_wait s =
     (case wait (taskSemaphore s) of
        None \<Rightarrow> None
      | Some n \<Rightarrow> Some (wat w W_lock (s\<lparr>taskSemaphore := n\<rparr>)))"
| "worker_step w W_lock s =
     (if taskMutex s = None then Some (wat w W_test (s\<lparr>taskMutex := Some (Worker w)\<rparr>))
      else None)"
| "worker_step w W_test s =
     (if 0 < numTasks (pool s)
      then (case tasks (pool s) of
              [] \<Rightarrow> None
            | task # rest \<Rightarrow>
                Some (wat w (W_execute task) (logged (Popped task)
                  (s\<lparr>pool := (pool s)\<lparr>tasks := rest, numTasks := numTasks (pool s) - 1\<rparr>,
                     taskMutex := None\<rparr>))))
      else if stopping (pool s) then Some (wat w W_exited (s\<lparr>taskMutex := None\<rparr>))
      else Some (wat w W_wait (s\<lparr>taskMutex := None\<rparr>)))"
| "worker_step w (W_execute task) s = Some (wat w (W_executing task) (logged (Begun task) s))"
| "worker_step w (W_executing task) s = Some (wat w (W_reacquire task) (logged (Ended task) s))"
| "worker_step w (W_reacquire task) s =
     (if taskMutex s = None
      then Some (wat w (W_retire task) (s\<lparr>taskMutex := Some (Worker w)\<rparr>))
      else None)"
| "worker_step w (W_retire task) s =
     (case heap s (group task) of
        None \<Rightarrow> None
      | Some d \<Rightarrow>
          Some (wat w W_wait (logged (Retired task)
            (s\<lparr>heap := (heap s)(group task \<mapsto> tg_removeTask d), taskMutex := None\<rparr>))))"
| "worker_step w W_exited s = None"

subsection \<open>Steps of a caller\<close>

text \<open>
  \<open>A_push\<close>: lines 348-350 are inside the region of \<open>taskMutex\<close>, and the queue, the
  task count and \<open>numPending\<close> are read under that mutex only, so they are one step.
  When the group's \<open>addTask\<close> blocks (a count of 0 on a closed gate), the thread stays
  inside the region for good: the step cannot be taken.
\<close>

fun caller_step :: "nat \<Rightarrow> cpc \<Rightarrow> system \<Rightarrow> system option" where
  "caller_step c Idle s = None"
| "caller_step c (A_lock task) s =
     (if threadMutex s = None then Some (at c (A_test task) (s\<lparr>threadMutex := Some (Caller c)\<rparr>))
      else None)"
| "caller_step c (A_test task) s =
     Some (at c (if numThreads (pool s) = 0 then A_execute task else A_lockq task) s)"
| "caller_step c (A_execute task) s = Some (at c (A_executing task) (logged (Inline_begun task) s))"
| "caller_step c (A_executing task) s = Some (at c (A_delete task) (logged (Inline_ended task) s))"
| "caller_step c (A_delete task) s = Some (at c Idle (s\<lparr>threadMutex := None\<rparr>))"
| "caller_step c (A_lockq task) s =
     (if taskMutex s = None then Some (at c (A_push task) (s\<lparr>taskMutex := Some (Caller c)\<rparr>))
      else None)"
| "caller_step c (A_push task) s =
     (case heap s (group task) of
        None \<Rightarrow> None
      | Some d \<Rightarrow>
          (case tg_addTask d of
             (Returns, d') \<Rightarrow>
               Some (at c (A_post task) (logged (Enqueued task)
                 (s\<lparr>pool := (pool s)\<lparr>tasks := tasks (pool s) @ [task],
                                      numTasks := numTasks (pool s) + 1\<rparr>,
                    heap := (heap s)(group task \<mapsto> d'), taskMutex := None\<rparr>)))
           | (oc, d') \<Rightarrow> None))"
| "caller_step c (A_post task) s =
     Some (at c Idle (s\<lparr>taskSemaphore := post (taskSemaphore s), threadMutex := None\<rparr>))"
| "caller_step c (S_lock n) s =
     (if threadMutex s = None then Some (at c (S_test n) (s\<lparr>threadMutex := Some (Caller c)\<rparr>))
      else None)"
| "caller_step c (S_test n) s =
     (if n > numThreads (pool s) then Some (at c (S_grow n False) s)
      else if n < numThreads (pool s) then Some (at c (F_stop (Regrow n)) s)
      else Some (at c Idle (s\<lparr>threadMutex := None\<rparr>)))"
| "caller_step c (S_grow n b) s =
     (if numThreads (pool s) < n
      then Some (wat (next_worker s) W_start
             (s\<lparr>pool := (pool s)\<lparr>threads := threads (pool s) @ [next_worker s],
                                  numThreads := numThreads (pool s) + 1\<rparr>,
                next_worker := next_worker s + 1\<rparr>))
      else Some (at c Idle (s\<lparr>threadMutex := None\<rparr>)))"
| "caller_step c (F_stop k) s = Some (at c (F_loop k 0) (s\<lparr>pool := (pool s)\<lparr>stopping := True\<rparr>\<rparr>))"
| "caller_step c (F_loop k i) s =
     (if i < numThreads (pool s)
      then Some (at c (F_wait k i) (s\<lparr>taskSemaphore := post (taskSemaphore s)\<rparr>))
      else Some (at c (F_join k (threads (pool s))) s))"
| "caller_step c (F_wait k i) s =
     (case wait (threadSemaphore s) of
        None \<Rightarrow> None
      | Some n \<Rightarrow> Some (at c (F_loop k (i + 1)) (s\<lparr>threadSemaphore := n\<rparr>)))"
| "caller_step c (F_join k (w # ws)) s =
     (if workers s w = Some W_exited
      then Some (at c (F_join k ws) (s\<lparr>workers := (workers s)(w := None)\<rparr>))
      else None)"
| "caller_step c (F_join k []) s =
     (if taskMutex s = None then Some (at c (F_clear k) (s\<lparr>taskMutex := Some (Caller c)\<rparr>))
      else None)"
| "caller_step c (F_clear k) s =
     (let s1 = logged Cleared
                 (s\<lparr>pool := (pool s)\<lparr>threads := [], tasks := [], numThreads := 0,
                                      numTasks := 0, stopping := False\<rparr>,
                    taskMutex := None\<rparr>)
      in case k of
           Regrow n \<Rightarrow> Some (at c (S_grow n True) s1)
         | Destroy \<Rightarrow> Some (at c Idle (s1\<lparr>threadMutex := None, alive := False\<rparr>)))"
| "caller_step c P_lock s =
     (if threadMutex s = None then Some (at c (F_stop Destroy) (s\<lparr>threadMutex := Some (Caller c)\<rparr>))
      else None)"
| "caller_step c (D_wait g) s =
     (case heap s g of
        None \<Rightarrow> None
      | Some d \<Rightarrow>
          (case tg_destroy d of
             None \<Rightarrow> None
           | Some d' \<Rightarrow> Some (at c Idle (s\<lparr>heap := (heap s)(g := None)\<rparr>))))"

subsection \<open>Calls, and the steps of the program\<close>

text \<open>
  What a caller that is not in a call may do next. The pool's functions are called on
  a live pool only. \<open>new TaskGroup\<close> puts a new object at a free address.
  \<open>setNumThreads\<close> with a negative count throws at once (lines 299-301): the caller is
  not in a call afterwards and nothing has changed.
\<close>

datatype call =
    Call_addTask Task
  | Call_setNumThreads cint
  | Call_destroy_pool
  | Call_new_TaskGroup nat
  | Call_delete_TaskGroup nat

fun enter :: "nat \<Rightarrow> call \<Rightarrow> system \<Rightarrow> system option" where
  "enter c (Call_addTask task) s = (if alive s then Some (at c (A_lock task) s) else None)"
| "enter c (Call_setNumThreads count) s =
     (if \<not> alive s then None
      else if sint count < 0 then Some s
      else Some (at c (S_lock (nat (sint count))) s))"
| "enter c Call_destroy_pool s = (if alive s then Some (at c P_lock s) else None)"
| "enter c (Call_new_TaskGroup g) s =
     (if heap s g = None then Some (s\<lparr>heap := (heap s)(g \<mapsto> TaskGroup_Data_new)\<rparr>) else None)"
| "enter c (Call_delete_TaskGroup g) s =
     (if heap s g = None then None else Some (at c (D_wait g) s))"

datatype label = Enter nat call | Step thread

fun step :: "label \<Rightarrow> system \<Rightarrow> system option" where
  "step (Enter c k) s = (if callers s c = Idle then enter c k s else None)"
| "step (Step (Caller c)) s = caller_step c (callers s c) s"
| "step (Step (Worker w)) s =
     (case workers s w of None \<Rightarrow> None | Some pc \<Rightarrow> worker_step w pc s)"

text \<open>A schedule is a list of labels; running it stops with \<open>None\<close> at a step that cannot be taken.\<close>

fun exec :: "label list \<Rightarrow> system \<Rightarrow> system option" where
  "exec [] s = Some s"
| "exec (l # ls) s = (case step l s of None \<Rightarrow> None | Some s' \<Rightarrow> exec ls s')"

inductive reachable :: "system \<Rightarrow> bool" where
  reachable_init: "reachable init"
| reachable_step: "reachable s \<Longrightarrow> step l s = Some s' \<Longrightarrow> reachable s'"

subsection \<open>Reading the state and the history\<close>

text \<open>Which mutex a position holds; \<open>finishing\<close>: inside \<open>finish\<close> after \<open>stop ()\<close>.\<close>

fun holds_threadMutex :: "cpc \<Rightarrow> bool" where
  "holds_threadMutex Idle = False"
| "holds_threadMutex (A_lock t) = False"
| "holds_threadMutex (S_lock n) = False"
| "holds_threadMutex P_lock = False"
| "holds_threadMutex (D_wait g) = False"
| "holds_threadMutex pc = True"

fun holds_taskMutex :: "cpc \<Rightarrow> bool" where
  "holds_taskMutex (A_push t) = True"
| "holds_taskMutex (F_clear k) = True"
| "holds_taskMutex pc = False"

fun worker_holds_taskMutex :: "wpc \<Rightarrow> bool" where
  "worker_holds_taskMutex W_test = True"
| "worker_holds_taskMutex (W_retire t) = True"
| "worker_holds_taskMutex pc = False"

fun finishing :: "cpc \<Rightarrow> bool" where
  "finishing (F_loop k i) = True"
| "finishing (F_wait k i) = True"
| "finishing (F_join k ws) = True"
| "finishing (F_clear k) = True"
| "finishing pc = False"

text \<open>The task a worker has popped and not yet retired.\<close>

fun carried :: "wpc option \<Rightarrow> Task list" where
  "carried (Some (W_execute t)) = [t]"
| "carried (Some (W_executing t)) = [t]"
| "carried (Some (W_reacquire t)) = [t]"
| "carried (Some (W_retire t)) = [t]"
| "carried pc = []"

text \<open>The task a worker has executed and not yet retired.\<close>

fun finished :: "wpc option \<Rightarrow> Task list" where
  "finished (Some (W_reacquire t)) = [t]"
| "finished (Some (W_retire t)) = [t]"
| "finished pc = []"

text \<open>What a worker has logged of the execution of the task it carries.\<close>

fun logged_part :: "wpc option \<Rightarrow> event list" where
  "logged_part (Some (W_executing t)) = [Begun t]"
| "logged_part (Some (W_reacquire t)) = [Begun t, Ended t]"
| "logged_part (Some (W_retire t)) = [Begun t, Ended t]"
| "logged_part pc = []"

text \<open>Such a reading, over the worker threads of the list, in the order of the list.\<close>

definition hands :: "(wpc option \<Rightarrow> 'a list) \<Rightarrow> system \<Rightarrow> 'a list" where
  "hands f s = concat (map (\<lambda>w. f (workers s w)) (threads (pool s)))"

abbreviation in_hand :: "system \<Rightarrow> Task list" where
  "in_hand \<equiv> hands carried"

fun enqueued :: "event list \<Rightarrow> Task list" where
  "enqueued [] = []"
| "enqueued (Enqueued t # h) = t # enqueued h"
| "enqueued (e # h) = enqueued h"

fun popped :: "event list \<Rightarrow> Task list" where
  "popped [] = []"
| "popped (Popped t # h) = t # popped h"
| "popped (e # h) = popped h"

fun retired :: "event list \<Rightarrow> Task list" where
  "retired [] = []"
| "retired (Retired t # h) = t # retired h"
| "retired (e # h) = retired h"

fun ended :: "event list \<Rightarrow> Task list" where
  "ended [] = []"
| "ended (Ended t # h) = t # ended h"
| "ended (e # h) = ended h"

text \<open>The executions by worker threads: the \<open>Begun\<close> and \<open>Ended\<close> events, in order.\<close>

fun exec_events :: "event list \<Rightarrow> event list" where
  "exec_events [] = []"
| "exec_events (Begun t # h) = Begun t # exec_events h"
| "exec_events (Ended t # h) = Ended t # exec_events h"
| "exec_events (e # h) = exec_events h"

text \<open>What the executions of a list of tasks log when they run one after the other.\<close>

definition one_by_one :: "Task list \<Rightarrow> event list" where
  "one_by_one ts = concat (map (\<lambda>t. [Begun t, Ended t]) ts)"

subsection \<open>What holds in every state of a run\<close>

text \<open>
  Mutual exclusion: a mutex is owned by exactly the thread whose position is inside a
  region under it. Worker numbers in use are below the next number.
\<close>

definition mutex_inv :: "system \<Rightarrow> bool" where
  "mutex_inv s =
     ((\<forall>c. threadMutex s \<noteq> Some (Caller c) \<longrightarrow> \<not> holds_threadMutex (callers s c)) \<and>
      (\<forall>c. taskMutex s \<noteq> Some (Caller c) \<longrightarrow> \<not> holds_taskMutex (callers s c)) \<and>
      (\<forall>w pc. taskMutex s \<noteq> Some (Worker w) \<longrightarrow> workers s w = Some pc \<longrightarrow>
              \<not> worker_holds_taskMutex pc) \<and>
      (\<forall>w pc. workers s w = Some pc \<longrightarrow> w < next_worker s))"

text \<open>
  The stopping flag is set exactly while the owner of \<open>threadMutex\<close> is inside
  \<open>finish\<close>, past \<open>stop ()\<close>.
\<close>

definition stop_inv :: "system \<Rightarrow> bool" where
  "stop_inv s =
     ((\<forall>c. finishing (callers s c) \<longrightarrow> stopping (pool s)) \<and>
      (\<forall>c. holds_threadMutex (callers s c) \<longrightarrow> stopping (pool s) \<longrightarrow> finishing (callers s c)) \<and>
      (stopping (pool s) \<longrightarrow> threadMutex s \<noteq> None))"

text \<open>
  The bookkeeping of threads and tasks: the counters are the lengths of the lists; the
  running worker threads are those of the list \<open>threads\<close>; while \<open>finish\<close> deletes
  the workers, the running ones are among those still to delete, and none is left at the
  end.
\<close>

definition threads_inv :: "system \<Rightarrow> bool" where
  "threads_inv s =
     (distinct (threads (pool s)) \<and>
      numThreads (pool s) = length (threads (pool s)) \<and>
      numTasks (pool s) = length (tasks (pool s)) \<and>
      (\<forall>w \<in> set (threads (pool s)). w < next_worker s) \<and>
      (\<forall>w pc. workers s w = Some pc \<longrightarrow> w \<in> set (threads (pool s))) \<and>
      (\<forall>c k ws. callers s c = F_join k ws \<longrightarrow>
         distinct ws \<and> (\<forall>w pc. workers s w = Some pc \<longrightarrow> w \<in> set ws)) \<and>
      (\<forall>c k w. callers s c = F_clear k \<longrightarrow> workers s w = None))"

text \<open>
  Once a worker of the list has ended, the queue is empty (and the pool is stopping);
  a pool without threads has an empty queue; a caller is on the queueing path of
  \<open>addTask\<close> only when the pool has threads.
\<close>

definition drain_inv :: "system \<Rightarrow> bool" where
  "drain_inv s =
     ((\<forall>w. w \<in> set (threads (pool s)) \<longrightarrow> workers s w = None \<or> workers s w = Some W_exited \<longrightarrow>
           tasks (pool s) = [] \<and> stopping (pool s)) \<and>
      (numThreads (pool s) = 0 \<longrightarrow> tasks (pool s) = []) \<and>
      (\<forall>c t. callers s c = A_lockq t \<or> callers s c = A_push t \<longrightarrow> 0 < numThreads (pool s)))"

text \<open>
  After the workers have been joined, and until \<open>setNumThreads\<close> returns, the queue is
  empty and no worker carries a task.
\<close>

definition quiet_inv :: "system \<Rightarrow> bool" where
  "quiet_inv s =
     ((\<forall>c k. callers s c = F_clear k \<longrightarrow> tasks (pool s) = []) \<and>
      (\<forall>c n. callers s c = S_grow n True \<longrightarrow>
         tasks (pool s) = [] \<and> (\<forall>w pc. workers s w = Some pc \<longrightarrow> carried (Some pc) = [])))"

text \<open>
  The tasks enqueued so far are, in this order, those popped so far and then those in
  the queue; the tasks popped are those retired and those the workers carry; the tasks
  whose execution has ended are those retired and those the workers carry past
  \<open>execute\<close> (counted under any property of tasks).
\<close>

definition flow_inv :: "system \<Rightarrow> bool" where
  "flow_inv s =
     (enqueued (history s) = popped (history s) @ tasks (pool s) \<and>
      (\<forall>P. length (filter P (popped (history s))) =
           length (filter P (retired (history s))) + length (filter P (in_hand s))) \<and>
      (\<forall>P. length (filter P (ended (history s))) =
           length (filter P (retired (history s))) + length (filter P (hands finished s))))"




text \<open>
  The state a schedule leads to from the start (the start itself when a step of the
  schedule cannot be taken).
\<close>

definition run_of :: "label list \<Rightarrow> system" where
  "run_of ls = (case exec ls init of Some s \<Rightarrow> s | None \<Rightarrow> init)"

subsection \<open>Example runs\<close>

text \<open>
  An example run: a group at address 7, a pool grown to two workers, two tasks of the
  group enqueued, and \<open>setNumThreads (0)\<close>, whose \<open>finish\<close> is followed up to the point
  where it has returned.
\<close>

definition t1 :: Task where "t1 = \<lparr>task_addr = 1, group = 7\<rparr>"

definition t2 :: Task where "t2 = \<lparr>task_addr = 2, group = 7\<rparr>"

definition sched_shrink :: "label list" where
  "sched_shrink =
     [Enter 0 (Call_new_TaskGroup 7), Enter 0 (Call_setNumThreads 2)] @
     replicate 5 (Step (Caller 0)) @
     [Enter 0 (Call_addTask t1)] @ replicate 5 (Step (Caller 0)) @
     [Enter 0 (Call_addTask t2)] @ replicate 5 (Step (Caller 0)) @
     [Enter 0 (Call_setNumThreads 0)] @ replicate 4 (Step (Caller 0)) @
     [Step (Worker 0), Step (Caller 0), Step (Caller 0), Step (Worker 1)] @
     replicate 2 (Step (Caller 0)) @
     replicate 17 (Step (Worker 0)) @ [Step (Caller 0)] @
     replicate 3 (Step (Worker 1)) @ replicate 3 (Step (Caller 0))"

text \<open>
  Three more runs. The group is deleted after the run above. It is deleted while its
  first task is still in the queue. On the new pool, which has no worker, a task of the
  group is given to \<open>addTask\<close>, which has called its \<open>execute\<close>, when another thread
  deletes the group. \<open>runs\<close>: every step of the schedule can be taken.
\<close>

definition runs :: "label list \<Rightarrow> bool" where
  "runs ls = (case exec ls init of None \<Rightarrow> False | Some s \<Rightarrow> True)"




subsection \<open>A pool of at most one worker\<close>

text \<open>
  \<open>latest h\<close>: the events since \<open>finish\<close> last cleared the lists of the pool (all of
  them when it never did): what the pool has done with its present worker threads.
  \<open>earlier h\<close>: the events before, up to and with that \<open>Cleared\<close>.
\<close>

definition latest :: "event list \<Rightarrow> event list" where
  "latest h = foldl (\<lambda>new e. if e = Cleared then [] else new @ [e]) [] h"

definition earlier :: "event list \<Rightarrow> event list" where
  "earlier h = take (length h - length (latest h)) h"

text \<open>
  When \<open>finish\<close> clears the lists, every task was executed to its end as often as it
  was enqueued; so that holds of the events before the last clear, in every state.
\<close>

definition settled_inv :: "system \<Rightarrow> bool" where
  "settled_inv s =
     (\<forall>t. count_list (ended (earlier (history s))) t =
          count_list (enqueued (earlier (history s))) t)"

text \<open>
  While the pool has at most one worker thread, of the events since the last clear:
  the tasks enqueued are those popped, in that order, followed by the queue; the tasks
  popped are those retired, in that order, followed by the task the worker carries; and
  the executions logged are those of the retired tasks, each begun and ended before the
  next, followed by what the worker has logged for the task it carries.
\<close>

definition order_inv :: "system \<Rightarrow> bool" where
  "order_inv s =
     (numThreads (pool s) \<le> 1 \<longrightarrow>
        enqueued (latest (history s)) = popped (latest (history s)) @ tasks (pool s) \<and>
        popped (latest (history s)) = retired (latest (history s)) @ in_hand s \<and>
        exec_events (latest (history s)) =
          one_by_one (retired (latest (history s))) @ hands logged_part s)"

text \<open>
  An example run: the pool is grown to two workers, two tasks are enqueued and
  executed, and the pool is set to one worker; two more tasks are enqueued, and the
  worker executes and retires both.
\<close>

definition t3 :: Task where "t3 = \<lparr>task_addr = 3, group = 7\<rparr>"

definition t4 :: Task where "t4 = \<lparr>task_addr = 4, group = 7\<rparr>"

definition sched_single :: "label list" where
  "sched_single =
     [Enter 0 (Call_new_TaskGroup 7), Enter 0 (Call_setNumThreads 2)] @
     replicate 5 (Step (Caller 0)) @
     [Enter 0 (Call_addTask t1)] @ replicate 5 (Step (Caller 0)) @
     [Enter 0 (Call_addTask t2)] @ replicate 5 (Step (Caller 0)) @
     [Enter 0 (Call_setNumThreads 1)] @ replicate 4 (Step (Caller 0)) @
     [Step (Worker 0), Step (Caller 0), Step (Caller 0), Step (Worker 1)] @
     replicate 2 (Step (Caller 0)) @
     replicate 17 (Step (Worker 0)) @ [Step (Caller 0)] @
     replicate 3 (Step (Worker 1)) @ replicate 5 (Step (Caller 0)) @
     [Enter 0 (Call_addTask t3)] @ replicate 5 (Step (Caller 0)) @
     [Enter 0 (Call_addTask t4)] @ replicate 5 (Step (Caller 0)) @
     replicate 15 (Step (Worker 2))"

subsection \<open>Facts about the 32-bit conversions\<close>

lemma uint_bit31: "bit (uint (c::32 word)) 31 = (2^31 \<le> uint c)"
proof -
  have a: "0 \<le> uint c" "uint c < 2^32" using uint_lt2p[of c] by simp_all
  have "uint c div 2^31 = (if 2^31 \<le> uint c then 1 else 0)"
    using a by (auto simp: div_pos_pos_trivial intro!: int_div_pos_eq[where r = "uint c - 2^31"] )
  then show ?thesis by (simp add: bit_iff_odd_drop_bit drop_bit_eq_div)
qed

lemma sint32: "sint (c::32 word) = (if unat c < 2^31 then int (unat c) else int (unat c) - 2^32)"
proof -
  have "take_bit 32 (uint c) = uint c" by (simp add: take_bit_int_eq_self_iff uint_lt2p[of c, simplified])
  moreover have "0 \<le> uint c" by simp
  ultimately show ?thesis
    using uint_bit31[of c]
    by (simp add: sint_uint signed_take_bit_eq_take_bit_minus unat_eq_nat_uint del: nat_uint_eq) linarith
qed

lemma sint32_neg_iff: "(sint (c::32 word) < 0) = (2^31 \<le> unat c)"
  using uint_lt2p[of c] by (simp add: sint32)

lemma sint32_nat: "unat (c::32 word) < 2^31 \<Longrightarrow> nat (sint c) = unat c"
  by (simp add: sint32)

lemma word_of_nat_sint: "0 \<le> sint (c::32 word) \<Longrightarrow> word_of_nat (nat (sint c)) = c"
  by simp

subsection \<open>The task group invariant\<close>

lemma sint32_succ: "sint (c::32 word) < 2 ^ 31 - 1 \<Longrightarrow> sint (c + 1) = sint c + 1"
proof -
  assume a: "sint c < 2 ^ 31 - 1"
  have "- (2 ^ 31) \<le> sint c"
    using sint_ge [of c] by simp
  with a show ?thesis
    by (simp add: sint_word_ariths signed_take_bit_int_eq_self)
qed

lemma sint32_pred: "0 < sint (c::32 word) \<Longrightarrow> sint (c - 1) = sint c - 1"
proof -
  assume a: "0 < sint c"
  have "sint c < 2 ^ 31"
    using sint_lt [of c] by simp
  with a show ?thesis
    by (simp add: sint_word_ariths signed_take_bit_int_eq_self)
qed

lemma word_pred_zero: "(c - 1 = 0) = (c = (1::32 word))"
  by auto

lemma tg_inv_new: "tg_inv TaskGroup_Data_new"
  by (simp add: tg_inv_def TaskGroup_Data_new_def gate_open_def)

lemma tg_addTask_returns:
  assumes "tg_inv g"
  shows "tg_addTask g =
           (Returns, g\<lparr>numPending := numPending g + 1, isEmpty := 0\<rparr>)"
proof (cases "numPending g = 0")
  case True
  with assms have "isEmpty g = 1"
    by (simp add: tg_inv_def gate_open_def)
  with True show ?thesis
    by (simp add: tg_addTask_def wait_def Let_def)
next
  case False
  with assms have "isEmpty g = 0"
    by (simp add: tg_inv_def gate_open_def)
  with False show ?thesis
    by (simp add: tg_addTask_def Let_def)
qed

lemma tg_removeTask_result:
  "tg_removeTask g =
     g\<lparr>numPending := numPending g - 1,
       isEmpty := (if numPending g = 1 then isEmpty g + 1 else isEmpty g)\<rparr>"
  by (simp add: tg_removeTask_def post_def Let_def word_pred_zero)

text \<open>
  C4, as the code has it. The constructor establishes the invariant "pending-count
  \<open>\<ge> 0\<close>, gate open iff pending-count \<open>= 0\<close>". \<open>addTask\<close> on a group that satisfies
  it and whose count is below \<open>INT_MAX\<close> returns without blocking, keeps the invariant,
  adds one to the count, and closes the gate exactly when the count was 0 (otherwise
  the gate was closed and stays closed). \<open>removeTask\<close> on a group with a pending task
  (one that an earlier \<open>addTask\<close> counted) keeps the invariant, takes one from the
  count and opens the gate exactly when the count was 1 (otherwise it stays closed).
\<close>

theorem taskgroup_invariant_preserved:
  "tg_inv TaskGroup_Data_new \<and>
   (tg_inv g \<and> sint (numPending g) < INT_MAX \<longrightarrow>
      (\<exists>g'. tg_addTask g = (Returns, g') \<and> tg_inv g' \<and>
             sint (numPending g') = sint (numPending g) + 1 \<and>
             \<not> gate_open g' \<and>
             (gate_open g = (numPending g = 0)))) \<and>
   (tg_inv g \<and> 0 < sint (numPending g) \<longrightarrow>
      tg_inv (tg_removeTask g) \<and>
      sint (numPending (tg_removeTask g)) = sint (numPending g) - 1 \<and>
      \<not> gate_open g \<and>
      (gate_open (tg_removeTask g) = (numPending g = 1)))"
proof (intro conjI impI)
  show "tg_inv TaskGroup_Data_new" by (rule tg_inv_new)
next
  assume a: "tg_inv g \<and> sint (numPending g) < INT_MAX"
  then have r: "tg_addTask g = (Returns, g\<lparr>numPending := numPending g + 1, isEmpty := 0\<rparr>)"
    by (simp add: tg_addTask_returns)
  from a have n: "0 \<le> sint (numPending g)" and o: "gate_open g = (numPending g = 0)"
    by (simp_all add: tg_inv_def)
  from a have s: "sint (numPending g + 1) = sint (numPending g) + 1"
    by (simp add: sint32_succ INT_MAX_def)
  with n have "sint (numPending g + 1) \<noteq> 0"
    by simp
  then have "numPending g + 1 \<noteq> 0"
    by auto
  with r n o s show "\<exists>g'. tg_addTask g = (Returns, g') \<and> tg_inv g' \<and>
             sint (numPending g') = sint (numPending g) + 1 \<and> \<not> gate_open g' \<and>
             (gate_open g = (numPending g = 0))"
    by (simp add: tg_inv_def gate_open_def)
next
  assume a: "tg_inv g \<and> 0 < sint (numPending g)"
  then have "numPending g \<noteq> 0"
    by auto
  with a have closed: "isEmpty g = 0"
    by (auto simp: tg_inv_def gate_open_def)
  from a have s: "sint (numPending g - 1) = sint (numPending g) - 1"
    by (simp add: sint32_pred)
  from a closed s show "tg_inv (tg_removeTask g)"
    by (simp add: tg_removeTask_result tg_inv_def gate_open_def word_pred_zero)
  from s show "sint (numPending (tg_removeTask g)) = sint (numPending g) - 1"
    by (simp add: tg_removeTask_result)
  from closed show "\<not> gate_open g"
    by (simp add: gate_open_def)
  from closed show "gate_open (tg_removeTask g) = (numPending g = 1)"
    by (simp add: tg_removeTask_result gate_open_def)
qed

theorem taskgroup_invariant_preserved_witness:
  "tg_inv TaskGroup_Data_new \<and> sint (numPending TaskGroup_Data_new) < INT_MAX \<and>
   tg_addTask TaskGroup_Data_new = (Returns, \<lparr>isEmpty = 0, numPending = 1\<rparr>) \<and>
   tg_inv \<lparr>isEmpty = 0, numPending = 1\<rparr> \<and>
   0 < sint (numPending \<lparr>isEmpty = 0, numPending = 1\<rparr>) \<and>
   tg_removeTask \<lparr>isEmpty = 0, numPending = 1\<rparr> = TaskGroup_Data_new \<and>
   gate_open (tg_removeTask \<lparr>isEmpty = 0, numPending = 1\<rparr>)"
  using taskgroup_invariant_preserved [of TaskGroup_Data_new]
        taskgroup_invariant_preserved [of "\<lparr>isEmpty = 0, numPending = 1\<rparr>"]
  by (simp add: TaskGroup_Data_new_def tg_inv_def gate_open_def INT_MAX_def
      tg_addTask_def tg_removeTask_def wait_def post_def Let_def)

text \<open>
  C4 as claimed says that every \<open>addTask\<close> keeps the invariant. On a group with
  \<open>INT_MAX\<close> pending tasks, which satisfies it, \<open>addTask\<close> returns with the count at
  \<open>INT_MIN\<close>: the pending-count is negative.
\<close>

theorem taskgroup_invariant_overflow_counterexample:
  "tg_inv \<lparr>isEmpty = 0, numPending = 2147483647\<rparr> \<and>
   fst (tg_addTask \<lparr>isEmpty = 0, numPending = 2147483647\<rparr>) = Returns \<and>
   sint (numPending (snd (tg_addTask \<lparr>isEmpty = 0, numPending = 2147483647\<rparr>))) = - 2147483648 \<and>
   \<not> tg_inv (snd (tg_addTask \<lparr>isEmpty = 0, numPending = 2147483647\<rparr>))"
  by (simp add: tg_inv_def gate_open_def tg_addTask_def Let_def)


subsection \<open>What the calling thread's steps change\<close>

declare signal_threads.simps [simp del] add_threads.simps [simp del]

lemma emit_fields [simp]:
  "data (emit a w) = data w" "groups (emit a w) = groups w" "held (emit a w) = held w"
  "fresh (emit a w) = fresh w" "trace (emit a w) = trace w @ [a]"
  by (simp_all add: emit_def)

lemma acquire_fields [simp]:
  "data (acquire m w) = data w" "groups (acquire m w) = groups w"
  "held (acquire m w) = m # held w" "fresh (acquire m w) = fresh w"
  "trace (acquire m w) = trace w @ [Acquire m]"
  by (simp_all add: acquire_def)

lemma release_fields [simp]:
  "data (release m w) = data w" "groups (release m w) = groups w"
  "held (release m w) = remove1 m (held w)" "fresh (release m w) = fresh w"
  "trace (release m w) = trace w @ [Release m]"
  by (simp_all add: release_def)

lemma add_thread_fields [simp]:
  "data (add_thread w) = (data w)\<lparr>threads := threads (data w) @ [fresh w],
                                  numThreads := numThreads (data w) + 1\<rparr>"
  "groups (add_thread w) = groups w" "held (add_thread w) = held w"
  "fresh (add_thread w) = fresh w + 1" "trace (add_thread w) = trace w @ [Start (fresh w)]"
  by (simp_all add: add_thread_def Let_def)

lemma add_threads_fields:
  "numThreads (data w) \<le> n \<Longrightarrow>
   data (add_threads n w) =
     (data w)\<lparr>threads := threads (data w) @ [fresh w ..< fresh w + (n - numThreads (data w))],
              numThreads := n\<rparr> \<and>
   groups (add_threads n w) = groups w \<and> held (add_threads n w) = held w \<and>
   fresh (add_threads n w) = fresh w + (n - numThreads (data w)) \<and>
   trace (add_threads n w) =
     trace w @ map Start [fresh w ..< fresh w + (n - numThreads (data w))]"
proof (induction n w rule: add_threads.induct)
  case (1 count w)
  show ?case
  proof (cases "numThreads (data w) < count")
    case True
    define k where "k = count - Suc (numThreads (data w))"
    from True have eq: "count - numThreads (data w) = Suc k"
      by (simp add: k_def)
    have upt: "[fresh w ..< Suc (fresh w + k)] = fresh w # [Suc (fresh w) ..< Suc (fresh w + k)]"
      by (simp add: upt_conv_Cons del: upt_Suc)
    from True "1.IH" have
      "data (add_threads count (add_thread w)) =
         (data w)\<lparr>threads := (threads (data w) @ [fresh w]) @ [Suc (fresh w) ..< Suc (fresh w) + k],
              numThreads := count\<rparr> \<and>
       groups (add_threads count (add_thread w)) = groups w \<and>
       held (add_threads count (add_thread w)) = held w \<and>
       fresh (add_threads count (add_thread w)) = Suc (fresh w) + k \<and>
       trace (add_threads count (add_thread w)) =
         (trace w @ [Start (fresh w)]) @ map Start [Suc (fresh w) ..< Suc (fresh w) + k]"
      by (simp add: k_def del: upt_Suc)
    with True show ?thesis
      by (subst (1 2 3 4 5) add_threads.simps) (simp add: eq upt del: upt_Suc)
  next
    case False
    with "1.prems" have "numThreads (data w) = count" by simp
    then show ?thesis
      by (subst (1 2 3 4 5) add_threads.simps) simp
  qed
qed

lemma signal_threads_fields:
  "data (signal_threads i w) = data w \<and> groups (signal_threads i w) = groups w \<and>
   held (signal_threads i w) = held w \<and> fresh (signal_threads i w) = fresh w \<and>
   trace (signal_threads i w) =
     trace w @ concat (replicate (numThreads (data w) - i)
                         [Post TaskSemaphore, Wait ThreadSemaphore])"
proof (induction i w rule: signal_threads.induct)
  case (1 i w)
  show ?case
  proof (cases "i < numThreads (data w)")
    case True
    then have eq: "numThreads (data w) - i = Suc (numThreads (data w) - Suc i)"
      by simp
    from True "1.IH" show ?thesis
      by (subst (1 2 3 4 5) signal_threads.simps) (simp add: eq)
  next
    case False
    then show ?thesis by (subst (1 2 3 4 5) signal_threads.simps) simp
  qed
qed

lemma fold_emit_fields:
  "data (fold (\<lambda>i. emit (f i)) xs w) = data w \<and> groups (fold (\<lambda>i. emit (f i)) xs w) = groups w \<and>
   held (fold (\<lambda>i. emit (f i)) xs w) = held w \<and> fresh (fold (\<lambda>i. emit (f i)) xs w) = fresh w \<and>
   trace (fold (\<lambda>i. emit (f i)) xs w) = trace w @ map f xs"
  by (induction xs arbitrary: w) simp_all

lemma finish_fields:
  "data (finish w) = ThreadPool_Data_new \<and> groups (finish w) = groups w \<and>
   held (finish w) = held w \<and> fresh (finish w) = fresh w \<and>
   trace (finish w) =
     trace w @ [Acquire StopMutex, Release StopMutex] @
     concat (replicate (numThreads (data w)) [Post TaskSemaphore, Wait ThreadSemaphore]) @
     map Join (threads (data w)) @
     [Acquire TaskMutex, Acquire StopMutex, Release StopMutex, Release TaskMutex]"
  by (simp add: finish_def stop_def join_threads_def Let_def ThreadPool_Data_new_def
      signal_threads_fields fold_emit_fields)

subsection \<open>setNumThreads\<close>

lemma setNumThreads_data:
  assumes "0 \<le> sint count"
  shows "setNumThreads count w =
           (Returns,
            release ThreadMutex
              (if nat (sint count) > numThreads (data w)
               then add_threads (nat (sint count)) (acquire ThreadMutex w)
               else if nat (sint count) < numThreads (data w)
               then add_threads (nat (sint count)) (finish (acquire ThreadMutex w))
               else acquire ThreadMutex w))"
  using assms by (simp add: setNumThreads_def Let_def)

text \<open>
  C2. For every negative count, \<open>setNumThreads\<close> throws \<open>Iex::ArgExc\<close> and changes
  nothing: the world after the call is the world before it (the pool's thread count,
  worker list, task queue and stopping flag, the groups, the mutexes held; not even a
  lock was taken).
\<close>

theorem setNumThreads_negative:
  "sint count < 0 \<Longrightarrow> setNumThreads count w = (Throws ArgExc, w)"
  by (simp add: setNumThreads_def)

theorem setNumThreads_negative_witness:
  "sint (- 1 :: cint) < 0 \<and> setNumThreads (- 1) world0 = (Throws ArgExc, world0)"
  using setNumThreads_negative [of "- 1" world0] by simp

text \<open>
  C3. For every count \<open>\<ge> 0\<close>, \<open>setNumThreads count\<close> returns, and \<open>numThreads ()\<close>
  called next returns \<open>count\<close>, whatever the thread count was before. When the count
  is below the old thread count, every old worker was joined and the worker list is made
  of \<open>count\<close> workers started by this call.
\<close>

theorem setNumThreads_then_numThreads:
  assumes "0 \<le> sint count"
  shows "fst (setNumThreads count w) = Returns \<and>
         fst (ThreadPool_numThreads (snd (setNumThreads count w))) = count \<and>
         numThreads (data (snd (setNumThreads count w))) = nat (sint count) \<and>
         (nat (sint count) < numThreads (data w) \<longrightarrow>
            threads (data (snd (setNumThreads count w))) =
              [fresh w ..< fresh w + nat (sint count)] \<and>
            (\<forall>i \<in> set (threads (data w)). Join i \<in> set (trace (snd (setNumThreads count w)))))"
proof -
  let ?n = "nat (sint count)"
  have n: "numThreads (data (snd (setNumThreads count w))) = ?n"
    using assms
    by (simp add: setNumThreads_data add_threads_fields finish_fields ThreadPool_Data_new_def)
  have "word_of_nat ?n = count"
    using assms by (rule word_of_nat_sint)
  with n have "fst (ThreadPool_numThreads (snd (setNumThreads count w))) = count"
    by (simp add: ThreadPool_numThreads_def Let_def)
  moreover have "?n < numThreads (data w) \<longrightarrow>
            threads (data (snd (setNumThreads count w))) = [fresh w ..< fresh w + ?n] \<and>
            (\<forall>i \<in> set (threads (data w)). Join i \<in> set (trace (snd (setNumThreads count w))))"
    using assms
    by (simp add: setNumThreads_data add_threads_fields finish_fields ThreadPool_Data_new_def)
  ultimately show ?thesis
    using assms n by (simp add: setNumThreads_data)
qed


theorem setNumThreads_then_numThreads_witness:
  "0 \<le> sint (1 :: cint) \<and> nat (sint (1 :: cint)) < numThreads (data world3) \<and>
   fst (setNumThreads 1 world3) = Returns \<and>
   fst (ThreadPool_numThreads (snd (setNumThreads 1 world3))) = 1 \<and>
   threads (data (snd (setNumThreads 1 world3))) = [3] \<and>
   Join 2 \<in> set (trace (snd (setNumThreads 1 world3)))"
  using setNumThreads_then_numThreads [of 1 world3]
  by (simp add: world3_def world0_def)

text \<open>
  C9. \<open>setNumThreads n\<close> with \<open>n\<close> equal to the thread count leaves the pool's data
  (worker list, thread count, task queue, task count, stopping flag) and the groups as
  they were. With \<open>n\<close> above the thread count, the data changes in the worker list,
  which gets the new workers at its end, and in the thread count, and nowhere else: task
  queue, task count and stopping flag are as before.
\<close>

theorem setNumThreads_frame:
  assumes "0 \<le> sint count"
  shows "(nat (sint count) = numThreads (data w) \<longrightarrow>
            data (snd (setNumThreads count w)) = data w \<and>
            groups (snd (setNumThreads count w)) = groups w) \<and>
         (numThreads (data w) < nat (sint count) \<longrightarrow>
            data (snd (setNumThreads count w)) =
              (data w)\<lparr>threads := threads (data w) @
                          [fresh w ..< fresh w + (nat (sint count) - numThreads (data w))],
                       numThreads := nat (sint count)\<rparr> \<and>
            tasks (data (snd (setNumThreads count w))) = tasks (data w) \<and>
            numTasks (data (snd (setNumThreads count w))) = numTasks (data w) \<and>
            stopping (data (snd (setNumThreads count w))) = stopping (data w) \<and>
            groups (snd (setNumThreads count w)) = groups w)"
  using assms by (simp add: setNumThreads_data add_threads_fields)

theorem setNumThreads_frame_witness:
  "0 \<le> sint (3 :: cint) \<and> nat (sint (3 :: cint)) = numThreads (data world3) \<and>
   data (snd (setNumThreads 3 world3)) = data world3 \<and>
   0 \<le> sint (5 :: cint) \<and> numThreads (data world3) < nat (sint (5 :: cint)) \<and>
   data (snd (setNumThreads 5 world3)) =
     \<lparr>tasks = [], numTasks = 0, threads = [0, 1, 2, 3, 4], numThreads = 5, stopping = False\<rparr>"
  using setNumThreads_frame [of 3 world3] setNumThreads_frame [of 5 world3]
  by (simp add: world3_def world0_def upt_rec)

text \<open>
  C10. The constructor hands its \<open>unsigned\<close> argument to \<open>setNumThreads (int)\<close>. From
  \<open>2^31\<close> on, the converted value is the argument minus \<open>2^32\<close>, which is negative:
  the constructor throws \<open>ArgExc\<close> and the new \<open>Data\<close> has no worker. Below
  \<open>2^31\<close> the constructor returns and \<open>numThreads ()\<close> is the argument.
\<close>

theorem ThreadPool_new_unsigned:
  "(2 ^ 31 \<le> unat nthreads \<longrightarrow>
      sint nthreads = int (unat nthreads) - 2 ^ 32 \<and> sint nthreads < 0 \<and>
      ThreadPool_new nthreads w = (Throws ArgExc, w\<lparr>data := ThreadPool_Data_new\<rparr>)) \<and>
   (unat nthreads < 2 ^ 31 \<longrightarrow>
      fst (ThreadPool_new nthreads w) = Returns \<and>
      fst (ThreadPool_numThreads (snd (ThreadPool_new nthreads w))) = nthreads \<and>
      numThreads (data (snd (ThreadPool_new nthreads w))) = unat nthreads \<and>
      length (threads (data (snd (ThreadPool_new nthreads w)))) = unat nthreads)"
proof (intro conjI impI)
  assume big: "2 ^ 31 \<le> unat nthreads"
  then show "sint nthreads = int (unat nthreads) - 2 ^ 32"
    by (simp add: sint32)
  from big show neg: "sint nthreads < 0"
    by (simp add: sint32_neg_iff)
  then show "ThreadPool_new nthreads w = (Throws ArgExc, w\<lparr>data := ThreadPool_Data_new\<rparr>)"
    by (simp add: ThreadPool_new_def setNumThreads_def)
next
  assume small: "unat nthreads < 2 ^ 31"
  then have nn: "0 \<le> sint nthreads" and n: "nat (sint nthreads) = unat nthreads"
    by (simp_all add: sint32)
  let ?w = "w\<lparr>data := ThreadPool_Data_new\<rparr>"
  from setNumThreads_data [OF nn, of ?w]
  have d: "data (snd (ThreadPool_new nthreads w)) =
             ThreadPool_Data_new\<lparr>threads := [fresh w ..< fresh w + unat nthreads],
                                 numThreads := unat nthreads\<rparr>"
    by (cases "unat nthreads = 0")
       (simp_all add: ThreadPool_new_def n add_threads_fields ThreadPool_Data_new_def)
  from nn show "fst (ThreadPool_new nthreads w) = Returns"
    by (simp add: ThreadPool_new_def setNumThreads_data)
  from d show "numThreads (data (snd (ThreadPool_new nthreads w))) = unat nthreads"
    by simp
  from d show "length (threads (data (snd (ThreadPool_new nthreads w)))) = unat nthreads"
    by simp
  from d show "fst (ThreadPool_numThreads (snd (ThreadPool_new nthreads w))) = nthreads"
    by (simp add: ThreadPool_numThreads_def Let_def)
qed

theorem ThreadPool_new_unsigned_witness:
  "2 ^ 31 \<le> unat (4294967295 :: cunsigned) \<and> sint (4294967295 :: cunsigned) = - 1 \<and>
   ThreadPool_new 4294967295 world3 = (Throws ArgExc, world3\<lparr>data := ThreadPool_Data_new\<rparr>) \<and>
   unat (2 :: cunsigned) < 2 ^ 31 \<and>
   fst (ThreadPool_new 2 world3) = Returns \<and>
   fst (ThreadPool_numThreads (snd (ThreadPool_new 2 world3))) = 2"
  using ThreadPool_new_unsigned [of 4294967295 world3] ThreadPool_new_unsigned [of 2 world3]
  by simp


subsection \<open>addTask and the worker loop\<close>

lemma execute_locks_append:
  "execute_locks (xs @ ys) = execute_locks xs @ execute_locks ys"
  by (induction xs rule: execute_locks.induct) simp_all




lemma group_removeTask_trace:
  "group_removeTask g w = (oc, w') \<Longrightarrow>
     held w' = held w \<and> execute_locks (trace w') = execute_locks (trace w)"
  by (auto simp: group_removeTask_def execute_locks_append split: option.splits)

lemma group_addTask_trace:
  "group_addTask g w = (oc, w') \<Longrightarrow>
     held w' = held w \<and> execute_locks (trace w') = execute_locks (trace w)"
  by (auto simp: group_addTask_def execute_locks_append
      split: option.splits prod.splits outcome.splits)

text \<open>One pass of the worker loop, entered with no mutex held.\<close>

lemma run_body_locks:
  assumes "held w = []" and "run_body w = (oc, w')"
  shows "set (execute_locks (trace w')) \<subseteq> set (execute_locks (trace w)) \<union> {[]} \<and>
         (oc = Returns \<longrightarrow> held w' = [])"
proof (cases "numTasks (data w) > 0")
  case False
  with assms show ?thesis
    by (auto simp: run_body_def stopped_def lock_def Let_def execute_locks_append
        split: if_splits bool.splits)
next
  case True
  show ?thesis
  proof (cases "tasks (data w)")
    case Nil
    with True assms show ?thesis
      by (auto simp: run_body_def lock_def Let_def execute_locks_append)
  next
    case (Cons task rest)
    define w7 where "w7 = emit (Delete task) (acquire TaskMutex
        (emit (Execute task []) (release TaskMutex
          ((acquire TaskMutex (emit (Wait TaskSemaphore) w))
             \<lparr>data := (data w)\<lparr>tasks := rest, numTasks := numTasks (data w) - 1\<rparr>\<rparr>))))"
    have h7: "held w7 = [TaskMutex]"
      and t7: "execute_locks (trace w7) = execute_locks (trace w) @ [[]]"
      using assms(1) by (simp_all add: w7_def execute_locks_append)
    obtain oc8 w8 where r: "group_removeTask (group task) w7 = (oc8, w8)"
      by (cases "group_removeTask (group task) w7")
    from group_removeTask_trace [OF r] h7 t7
    have 8: "held w8 = [TaskMutex]" "execute_locks (trace w8) = execute_locks (trace w) @ [[]]"
      by simp_all
    from True Cons assms r have
      "(oc, w') = (if oc8 = Returns then (Returns, release TaskMutex w8) else (oc8, w8))"
      by (cases oc8) (auto simp: run_body_def lock_def Let_def w7_def)
    with 8 show ?thesis
      by (auto simp: execute_locks_append split: if_splits)
  qed
qed

text \<open>Any number of passes.\<close>

lemma run_loop_locks:
  "held w = [] \<Longrightarrow>
     set (execute_locks (trace (snd (run_loop k w)))) \<subseteq> set (execute_locks (trace w)) \<union> {[]}"
proof (induction k arbitrary: w)
  case 0
  then show ?case by auto
next
  case (Suc k)
  obtain oc1 w1 where b: "run_body w = (oc1, w1)"
    by (cases "run_body w")
  note l = run_body_locks [OF Suc.prems(1) b]
  show ?case
  proof (cases "oc1 = Returns")
    case True
    with l have "held w1 = []" by simp
    then have "set (execute_locks (trace (snd (run_loop k w1)))) \<subseteq>
                 set (execute_locks (trace w1)) \<union> {[]}"
      by (rule Suc.IH)
    moreover from True b have "run_loop (Suc k) w = run_loop k w1" by simp
    ultimately show ?thesis using l by auto
  next
    case False
    with b have "snd (run_loop (Suc k) w) = w1"
      by (cases oc1) auto
    with l show ?thesis by simp
  qed
qed

text \<open>
  C8, as the code has it. For a thread that enters holding no mutex: the one
  \<open>execute\<close> of \<open>addTask\<close>, on its path for a pool without workers, is made while
  \<open>threadMutex\<close> (and no other mutex) is held, and its path for a pool with workers
  executes nothing; every \<open>execute\<close> a worker thread makes, in any number of passes of
  its loop, whether it has left the loop by then or not, is made with no mutex held.
  So \<open>taskMutex\<close>, the lock of the queue, is never held across \<open>execute\<close>.
\<close>

theorem execute_never_under_TaskMutex:
  assumes "held w = []"
  shows "execute_locks (trace (snd (addTask task w))) =
           execute_locks (trace w) @ (if numThreads (data w) = 0 then [[ThreadMutex]] else []) \<and>
         (\<forall>k. set (execute_locks (trace (snd (run k w)))) \<subseteq>
                 set (execute_locks (trace w)) \<union> {[]})"
proof
  show "execute_locks (trace (snd (addTask task w))) =
           execute_locks (trace w) @ (if numThreads (data w) = 0 then [[ThreadMutex]] else [])"
  proof (cases "numThreads (data w) = 0")
    case True
    with assms show ?thesis
      by (simp add: addTask_def lock_def Let_def execute_locks_append)
  next
    case False
    define w3 where "w3 = (acquire TaskMutex (acquire ThreadMutex w))
        \<lparr>data := (data w)\<lparr>tasks := tasks (data w) @ [task], numTasks := numTasks (data w) + 1\<rparr>\<rparr>"
    obtain oc4 w4 where r: "group_addTask (group task) w3 = (oc4, w4)"
      by (cases "group_addTask (group task) w3")
    from group_addTask_trace [OF r]
    have 4: "execute_locks (trace w4) = execute_locks (trace w)"
      by (simp add: w3_def execute_locks_append)
    from False r assms have "snd (addTask task w) =
        (if oc4 = Returns
         then release ThreadMutex (emit (Post TaskSemaphore) (release TaskMutex w4)) else w4)"
      by (cases oc4) (auto simp: addTask_def lock_def Let_def w3_def)
    with 4 False show ?thesis
      by (simp add: execute_locks_append)
  qed
next
  show "\<forall>k. set (execute_locks (trace (snd (run k w)))) \<subseteq>
              set (execute_locks (trace w)) \<union> {[]}"
  proof
    fix k
    from assms have "held (emit (Post ThreadSemaphore) w) = []"
      by simp
    from run_loop_locks [OF this, of k] show
      "set (execute_locks (trace (snd (run k w)))) \<subseteq> set (execute_locks (trace w)) \<union> {[]}"
      by (simp add: run_def execute_locks_append)
  qed
qed

theorem execute_never_under_TaskMutex_witness:
  "held world0 = [] \<and> numThreads (data world0) = 0 \<and>
   execute_locks (trace (snd (addTask task1 world0))) = [[ThreadMutex]] \<and>
   held world_busy = [] \<and>
   fst (run 2 world_busy) = None \<and>
   execute_locks (trace (snd (run 2 world_busy))) = [[]] \<and>
   fst (run 3 world_stopping) = Some Returns \<and>
   execute_locks (trace (snd (run 3 world_stopping))) = [[]]"
  using execute_never_under_TaskMutex [of world0 task1]
  by (simp add: world0_def ThreadPool_Data_new_def world_stopping_def world_busy_def run_def
      run_body_def lock_def numeral_2_eq_2 numeral_3_eq_3 Let_def group_removeTask_def
      stopped_def task1_def execute_locks_append)

text \<open>
  C8 as claimed says that no lock of the pool is held across \<open>execute\<close> on the path
  of \<open>addTask\<close> for a pool without workers either. On a new pool, \<open>addTask\<close> executes
  the task while it holds \<open>threadMutex\<close>.
\<close>

theorem execute_under_ThreadMutex_counterexample:
  "held world0 = [] \<and> numThreads (data world0) = 0 \<and>
   Execute task1 [ThreadMutex] \<in> set (trace (snd (addTask task1 world0)))"
  by (simp add: addTask_def lock_def Let_def world0_def ThreadPool_Data_new_def)

subsection \<open>Interleaved runs: what a step changes\<close>

lemma at_fields [simp]:
  "pool (at c pc s) = pool s" "taskSemaphore (at c pc s) = taskSemaphore s"
  "threadSemaphore (at c pc s) = threadSemaphore s" "taskMutex (at c pc s) = taskMutex s"
  "threadMutex (at c pc s) = threadMutex s" "heap (at c pc s) = heap s"
  "workers (at c pc s) = workers s" "callers (at c pc s) = (callers s)(c := pc)"
  "next_worker (at c pc s) = next_worker s" "alive (at c pc s) = alive s"
  "history (at c pc s) = history s"
  by (simp_all add: at_def)

lemma wat_fields [simp]:
  "pool (wat w pc s) = pool s" "taskSemaphore (wat w pc s) = taskSemaphore s"
  "threadSemaphore (wat w pc s) = threadSemaphore s" "taskMutex (wat w pc s) = taskMutex s"
  "threadMutex (wat w pc s) = threadMutex s" "heap (wat w pc s) = heap s"
  "workers (wat w pc s) = (workers s)(w \<mapsto> pc)" "callers (wat w pc s) = callers s"
  "next_worker (wat w pc s) = next_worker s" "alive (wat w pc s) = alive s"
  "history (wat w pc s) = history s"
  by (simp_all add: wat_def)

lemma logged_fields [simp]:
  "pool (logged e s) = pool s" "taskSemaphore (logged e s) = taskSemaphore s"
  "threadSemaphore (logged e s) = threadSemaphore s" "taskMutex (logged e s) = taskMutex s"
  "threadMutex (logged e s) = threadMutex s" "heap (logged e s) = heap s"
  "workers (logged e s) = workers s" "callers (logged e s) = callers s"
  "next_worker (logged e s) = next_worker s" "alive (logged e s) = alive s"
  "history (logged e s) = history s @ [e]"
  by (simp_all add: logged_def)

lemma enqueued_append [simp]: "enqueued (h @ h') = enqueued h @ enqueued h'"
  by (induction h rule: enqueued.induct) simp_all

lemma popped_append [simp]: "popped (h @ h') = popped h @ popped h'"
  by (induction h rule: popped.induct) simp_all

lemma retired_append [simp]: "retired (h @ h') = retired h @ retired h'"
  by (induction h rule: retired.induct) simp_all

lemma ended_append [simp]: "ended (h @ h') = ended h @ ended h'"
  by (induction h rule: ended.induct) simp_all

lemma exec_events_append [simp]: "exec_events (h @ h') = exec_events h @ exec_events h'"
  by (induction h rule: exec_events.induct) simp_all

lemma one_by_one_append [simp]: "one_by_one (ts @ ts') = one_by_one ts @ one_by_one ts'"
  by (simp add: one_by_one_def)

subsection \<open>The steps, one by one\<close>

lemma step_cases [consumes 1, case_names enter_addTask enter_setNumThreads_throw
    enter_setNumThreads enter_destroy_pool enter_new_TaskGroup enter_delete_TaskGroup
    A_lock A_test A_execute A_executing A_delete A_lockq A_push A_post
    S_lock S_test_grow S_test_shrink S_test_same S_grow_add S_grow_done
    F_stop F_loop_post F_loop_done F_wait F_join F_join_done F_clear_regrow F_clear_destroy
    P_lock D_wait
    W_start W_wait W_lock W_test_pop W_test_exit W_test_again
    W_execute W_executing W_reacquire W_retire]:
  assumes "step l s = Some s'"
  obtains
    (enter_addTask) c t where "l = Enter c (Call_addTask t)" "callers s c = Idle" "alive s"
      "s' = at c (A_lock t) s"
  | (enter_setNumThreads_throw) c n where "l = Enter c (Call_setNumThreads n)"
      "callers s c = Idle" "alive s" "sint n < 0" "s' = s"
  | (enter_setNumThreads) c n where "l = Enter c (Call_setNumThreads n)"
      "callers s c = Idle" "alive s" "0 \<le> sint n"
      "s' = at c (S_lock (nat (sint n))) s"
  | (enter_destroy_pool) c where "l = Enter c Call_destroy_pool" "callers s c = Idle" "alive s"
      "s' = at c P_lock s"
  | (enter_new_TaskGroup) c g where "l = Enter c (Call_new_TaskGroup g)" "callers s c = Idle"
      "heap s g = None" "s' = s\<lparr>heap := (heap s)(g \<mapsto> TaskGroup_Data_new)\<rparr>"
  | (enter_delete_TaskGroup) c g where "l = Enter c (Call_delete_TaskGroup g)"
      "callers s c = Idle" "heap s g \<noteq> None" "s' = at c (D_wait g) s"
  | (A_lock) c t where "l = Step (Caller c)" "callers s c = A_lock t" "threadMutex s = None"
      "s' = at c (A_test t) (s\<lparr>threadMutex := Some (Caller c)\<rparr>)"
  | (A_test) c t where "l = Step (Caller c)" "callers s c = A_test t"
      "s' = at c (if numThreads (pool s) = 0 then A_execute t else A_lockq t) s"
  | (A_execute) c t where "l = Step (Caller c)" "callers s c = A_execute t"
      "s' = at c (A_executing t) (logged (Inline_begun t) s)"
  | (A_executing) c t where "l = Step (Caller c)" "callers s c = A_executing t"
      "s' = at c (A_delete t) (logged (Inline_ended t) s)"
  | (A_delete) c t where "l = Step (Caller c)" "callers s c = A_delete t"
      "s' = at c Idle (s\<lparr>threadMutex := None\<rparr>)"
  | (A_lockq) c t where "l = Step (Caller c)" "callers s c = A_lockq t" "taskMutex s = None"
      "s' = at c (A_push t) (s\<lparr>taskMutex := Some (Caller c)\<rparr>)"
  | (A_push) c t d d' where "l = Step (Caller c)" "callers s c = A_push t"
      "heap s (group t) = Some d" "tg_addTask d = (Returns, d')"
      "s' = at c (A_post t) (logged (Enqueued t)
              (s\<lparr>pool := (pool s)\<lparr>tasks := tasks (pool s) @ [t],
                                   numTasks := numTasks (pool s) + 1\<rparr>,
                 heap := (heap s)(group t \<mapsto> d'), taskMutex := None\<rparr>))"
  | (A_post) c t where "l = Step (Caller c)" "callers s c = A_post t"
      "s' = at c Idle (s\<lparr>taskSemaphore := post (taskSemaphore s), threadMutex := None\<rparr>)"
  | (S_lock) c n where "l = Step (Caller c)" "callers s c = S_lock n" "threadMutex s = None"
      "s' = at c (S_test n) (s\<lparr>threadMutex := Some (Caller c)\<rparr>)"
  | (S_test_grow) c n where "l = Step (Caller c)" "callers s c = S_test n"
      "numThreads (pool s) < n" "s' = at c (S_grow n False) s"
  | (S_test_shrink) c n where "l = Step (Caller c)" "callers s c = S_test n"
      "n < numThreads (pool s)" "s' = at c (F_stop (Regrow n)) s"
  | (S_test_same) c n where "l = Step (Caller c)" "callers s c = S_test n"
      "n = numThreads (pool s)" "s' = at c Idle (s\<lparr>threadMutex := None\<rparr>)"
  | (S_grow_add) c n b where "l = Step (Caller c)" "callers s c = S_grow n b"
      "numThreads (pool s) < n"
      "s' = wat (next_worker s) W_start
              (s\<lparr>pool := (pool s)\<lparr>threads := threads (pool s) @ [next_worker s],
                                   numThreads := numThreads (pool s) + 1\<rparr>,
                 next_worker := next_worker s + 1\<rparr>)"
  | (S_grow_done) c n b where "l = Step (Caller c)" "callers s c = S_grow n b"
      "\<not> numThreads (pool s) < n" "s' = at c Idle (s\<lparr>threadMutex := None\<rparr>)"
  | (F_stop) c k where "l = Step (Caller c)" "callers s c = F_stop k"
      "s' = at c (F_loop k 0) (s\<lparr>pool := (pool s)\<lparr>stopping := True\<rparr>\<rparr>)"
  | (F_loop_post) c k i where "l = Step (Caller c)" "callers s c = F_loop k i"
      "i < numThreads (pool s)"
      "s' = at c (F_wait k i) (s\<lparr>taskSemaphore := post (taskSemaphore s)\<rparr>)"
  | (F_loop_done) c k i where "l = Step (Caller c)" "callers s c = F_loop k i"
      "\<not> i < numThreads (pool s)" "s' = at c (F_join k (threads (pool s))) s"
  | (F_wait) c k i n where "l = Step (Caller c)" "callers s c = F_wait k i"
      "wait (threadSemaphore s) = Some n"
      "s' = at c (F_loop k (i + 1)) (s\<lparr>threadSemaphore := n\<rparr>)"
  | (F_join) c k w ws where "l = Step (Caller c)" "callers s c = F_join k (w # ws)"
      "workers s w = Some W_exited"
      "s' = at c (F_join k ws) (s\<lparr>workers := (workers s)(w := None)\<rparr>)"
  | (F_join_done) c k where "l = Step (Caller c)" "callers s c = F_join k []"
      "taskMutex s = None" "s' = at c (F_clear k) (s\<lparr>taskMutex := Some (Caller c)\<rparr>)"
  | (F_clear_regrow) c n where "l = Step (Caller c)" "callers s c = F_clear (Regrow n)"
      "s' = at c (S_grow n True) (logged Cleared
              (s\<lparr>pool := (pool s)\<lparr>threads := [], tasks := [], numThreads := 0,
                                   numTasks := 0, stopping := False\<rparr>,
                 taskMutex := None\<rparr>))"
  | (F_clear_destroy) c where "l = Step (Caller c)" "callers s c = F_clear Destroy"
      "s' = at c Idle
              ((logged Cleared
                 (s\<lparr>pool := (pool s)\<lparr>threads := [], tasks := [], numThreads := 0,
                                      numTasks := 0, stopping := False\<rparr>,
                    taskMutex := None\<rparr>))\<lparr>threadMutex := None, alive := False\<rparr>)"
  | (P_lock) c where "l = Step (Caller c)" "callers s c = P_lock" "threadMutex s = None"
      "s' = at c (F_stop Destroy) (s\<lparr>threadMutex := Some (Caller c)\<rparr>)"
  | (D_wait) c g d where "l = Step (Caller c)" "callers s c = D_wait g" "heap s g = Some d"
      "gate_open d" "s' = at c Idle (s\<lparr>heap := (heap s)(g := None)\<rparr>)"
  | (W_start) w where "l = Step (Worker w)" "workers s w = Some W_start"
      "s' = wat w W_wait (s\<lparr>threadSemaphore := post (threadSemaphore s)\<rparr>)"
  | (W_wait) w n where "l = Step (Worker w)" "workers s w = Some W_wait"
      "wait (taskSemaphore s) = Some n" "s' = wat w W_lock (s\<lparr>taskSemaphore := n\<rparr>)"
  | (W_lock) w where "l = Step (Worker w)" "workers s w = Some W_lock" "taskMutex s = None"
      "s' = wat w W_test (s\<lparr>taskMutex := Some (Worker w)\<rparr>)"
  | (W_test_pop) w t rest where "l = Step (Worker w)" "workers s w = Some W_test"
      "0 < numTasks (pool s)" "tasks (pool s) = t # rest"
      "s' = wat w (W_execute t) (logged (Popped t)
              (s\<lparr>pool := (pool s)\<lparr>tasks := rest, numTasks := numTasks (pool s) - 1\<rparr>,
                 taskMutex := None\<rparr>))"
  | (W_test_exit) w where "l = Step (Worker w)" "workers s w = Some W_test"
      "numTasks (pool s) = 0" "stopping (pool s)" "s' = wat w W_exited (s\<lparr>taskMutex := None\<rparr>)"
  | (W_test_again) w where "l = Step (Worker w)" "workers s w = Some W_test"
      "numTasks (pool s) = 0" "\<not> stopping (pool s)" "s' = wat w W_wait (s\<lparr>taskMutex := None\<rparr>)"
  | (W_execute) w t where "l = Step (Worker w)" "workers s w = Some (W_execute t)"
      "s' = wat w (W_executing t) (logged (Begun t) s)"
  | (W_executing) w t where "l = Step (Worker w)" "workers s w = Some (W_executing t)"
      "s' = wat w (W_reacquire t) (logged (Ended t) s)"
  | (W_reacquire) w t where "l = Step (Worker w)" "workers s w = Some (W_reacquire t)"
      "taskMutex s = None" "s' = wat w (W_retire t) (s\<lparr>taskMutex := Some (Worker w)\<rparr>)"
  | (W_retire) w t d where "l = Step (Worker w)" "workers s w = Some (W_retire t)"
      "heap s (group t) = Some d"
      "s' = wat w W_wait (logged (Retired t)
              (s\<lparr>heap := (heap s)(group t \<mapsto> tg_removeTask d), taskMutex := None\<rparr>))"
proof (cases l)
  case (Enter c k)
  show ?thesis
  proof (cases k)
    case (Call_addTask t)
    with assms Enter show ?thesis
      by (auto split: if_splits intro: that(1))
  next
    case (Call_setNumThreads n)
    with assms Enter show ?thesis
      by (auto split: if_splits intro: that(2) that(3))
  next
    case Call_destroy_pool
    with assms Enter show ?thesis
      by (auto split: if_splits intro: that(4))
  next
    case (Call_new_TaskGroup g)
    with assms Enter show ?thesis
      by (auto split: if_splits intro: that(5))
  next
    case (Call_delete_TaskGroup g)
    with assms Enter show ?thesis
      by (auto split: if_splits intro: that(6))
  qed
next
  case (Step th)
  show ?thesis
  proof (cases th)
    case (Caller c)
    show ?thesis
    proof (cases "callers s c")
      case Idle
      with assms Step Caller show ?thesis
        by simp
    next
      case (A_lock t)
      with assms Step Caller show ?thesis
        by (auto split: if_splits option.splits intro: that(7))
    next
      case (A_test t)
      with assms Step Caller show ?thesis
        by (auto split: if_splits option.splits intro: that(8))
    next
      case (A_execute t)
      with assms Step Caller show ?thesis
        by (auto split: if_splits option.splits intro: that(9))
    next
      case (A_executing t)
      with assms Step Caller show ?thesis
        by (auto split: if_splits option.splits intro: that(10))
    next
      case (A_delete t)
      with assms Step Caller show ?thesis
        by (auto split: if_splits option.splits intro: that(11))
    next
      case (A_lockq t)
      with assms Step Caller show ?thesis
        by (auto split: if_splits option.splits intro: that(12))
    next
      case (A_push t)
      with assms Step Caller show ?thesis
        by (auto split: if_splits option.splits prod.splits outcome.splits intro: that(13))
    next
      case (A_post t)
      with assms Step Caller show ?thesis
        by (auto split: if_splits option.splits intro: that(14))
    next
      case (S_lock n)
      with assms Step Caller show ?thesis
        by (auto split: if_splits option.splits intro: that(15))
    next
      case (S_test n)
      with assms Step Caller show ?thesis
        by (auto split: if_splits option.splits intro: that(16) that(17) that(18))
    next
      case (S_grow n b)
      with assms Step Caller show ?thesis
        by (auto split: if_splits option.splits intro: that(19) that(20))
    next
      case (F_stop k)
      with assms Step Caller show ?thesis
        by (auto split: if_splits option.splits intro: that(21))
    next
      case (F_loop k i)
      with assms Step Caller show ?thesis
        by (auto split: if_splits option.splits intro: that(22) that(23))
    next
      case (F_wait k i)
      with assms Step Caller show ?thesis
        by (auto split: if_splits option.splits intro: that(24))
    next
      case (F_join k ws)
      with assms Step Caller show ?thesis
        by (cases ws) (auto split: if_splits intro: that(25) that(26))
    next
      case (F_clear k)
      with assms Step Caller show ?thesis
        by (cases k) (auto simp: Let_def intro: that(27) that(28))
    next
      case P_lock
      with assms Step Caller show ?thesis
        by (auto split: if_splits option.splits intro: that(29))
    next
      case (D_wait g)
      with assms Step Caller show ?thesis
        by (auto simp: tg_destroy_def wait_def gate_open_def split: option.splits if_splits intro: that(30))
    qed
  next
    case (Worker w)
    with assms Step obtain pc where pc: "workers s w = Some pc" "worker_step w pc s = Some s'"
      by (auto split: option.splits)
    show ?thesis
    proof (cases pc)
      case W_start
      with pc Step Worker show ?thesis
        by (auto split: if_splits option.splits list.splits intro: that(31))
    next
      case W_wait
      with pc Step Worker show ?thesis
        by (auto split: if_splits option.splits list.splits intro: that(32))
    next
      case W_lock
      with pc Step Worker show ?thesis
        by (auto split: if_splits option.splits list.splits intro: that(33))
    next
      case W_test
      with pc Step Worker show ?thesis
        by (auto split: if_splits option.splits list.splits intro: that(34) that(35) that(36))
    next
      case (W_execute t)
      with pc Step Worker show ?thesis
        by (auto split: if_splits option.splits list.splits intro: that(37))
    next
      case (W_executing t)
      with pc Step Worker show ?thesis
        by (auto split: if_splits option.splits list.splits intro: that(38))
    next
      case (W_reacquire t)
      with pc Step Worker show ?thesis
        by (auto split: if_splits option.splits list.splits intro: that(39))
    next
      case (W_retire t)
      with pc Step Worker show ?thesis
        by (auto split: if_splits option.splits list.splits intro: that(40))
    next
      case W_exited
      with pc show ?thesis
        by simp
    qed
  qed
qed

subsection \<open>Invariants of every run\<close>

lemma mutex_inv_init: "mutex_inv init"
  by (simp add: mutex_inv_def init_def)

lemma mutex_inv_step:
  assumes "step l s = Some s'" and "mutex_inv s"
  shows "mutex_inv s'"
proof -
  have T: "\<And>c. holds_threadMutex (callers s c) \<Longrightarrow> threadMutex s = Some (Caller c)"
    and Q: "\<And>c. holds_taskMutex (callers s c) \<Longrightarrow> taskMutex s = Some (Caller c)"
    and W: "\<And>w pc. workers s w = Some pc \<Longrightarrow> worker_holds_taskMutex pc \<Longrightarrow>
              taskMutex s = Some (Worker w)"
    and N: "\<And>w pc. workers s w = Some pc \<Longrightarrow> w < next_worker s"
    using assms(2) by (auto simp add: mutex_inv_def)
  from assms(1) show ?thesis
  proof (cases rule: step_cases)
    case (enter_addTask c t)
    show ?thesis unfolding enter_addTask(4)
      using enter_addTask(2) assms(2) T[of c, unfolded enter_addTask(2), simplified] Q[of c, unfolded enter_addTask(2), simplified]
      by (auto simp: mutex_inv_def)
  next
    case (enter_setNumThreads_throw c n)
    show ?thesis unfolding enter_setNumThreads_throw(5)
      using enter_setNumThreads_throw(2) assms(2) T[of c, unfolded enter_setNumThreads_throw(2), simplified] Q[of c, unfolded enter_setNumThreads_throw(2), simplified]
      by (auto simp: mutex_inv_def)
  next
    case (enter_setNumThreads c n)
    show ?thesis unfolding enter_setNumThreads(5)
      using enter_setNumThreads(2) assms(2) T[of c, unfolded enter_setNumThreads(2), simplified] Q[of c, unfolded enter_setNumThreads(2), simplified]
      by (auto simp: mutex_inv_def)
  next
    case (enter_destroy_pool c)
    show ?thesis unfolding enter_destroy_pool(4)
      using enter_destroy_pool(2) assms(2) T[of c, unfolded enter_destroy_pool(2), simplified] Q[of c, unfolded enter_destroy_pool(2), simplified]
      by (auto simp: mutex_inv_def)
  next
    case (enter_new_TaskGroup c g)
    show ?thesis unfolding enter_new_TaskGroup(4)
      using enter_new_TaskGroup(2) assms(2) T[of c, unfolded enter_new_TaskGroup(2), simplified] Q[of c, unfolded enter_new_TaskGroup(2), simplified]
      by (auto simp: mutex_inv_def)
  next
    case (enter_delete_TaskGroup c g)
    show ?thesis unfolding enter_delete_TaskGroup(4)
      using enter_delete_TaskGroup(2) assms(2) T[of c, unfolded enter_delete_TaskGroup(2), simplified] Q[of c, unfolded enter_delete_TaskGroup(2), simplified]
      by (auto simp: mutex_inv_def)
  next
    case (A_lock c t)
    show ?thesis unfolding A_lock(4)
      using A_lock(2-3) assms(2) T[of c, unfolded A_lock(2), simplified] Q[of c, unfolded A_lock(2), simplified]
      by (auto simp: mutex_inv_def)
  next
    case (A_test c t)
    show ?thesis unfolding A_test(3)
      using A_test(2) assms(2) T[of c, unfolded A_test(2), simplified] Q[of c, unfolded A_test(2), simplified]
      by (auto simp: mutex_inv_def)
  next
    case (A_execute c t)
    show ?thesis unfolding A_execute(3)
      using A_execute(2) assms(2) T[of c, unfolded A_execute(2), simplified] Q[of c, unfolded A_execute(2), simplified]
      by (auto simp: mutex_inv_def)
  next
    case (A_executing c t)
    show ?thesis unfolding A_executing(3)
      using A_executing(2) assms(2) T[of c, unfolded A_executing(2), simplified] Q[of c, unfolded A_executing(2), simplified]
      by (auto simp: mutex_inv_def)
  next
    case (A_delete c t)
    show ?thesis unfolding A_delete(3)
      using A_delete(2) assms(2) T[of c, unfolded A_delete(2), simplified] Q[of c, unfolded A_delete(2), simplified]
      by (auto simp: mutex_inv_def)
  next
    case (A_lockq c t)
    show ?thesis unfolding A_lockq(4)
      using A_lockq(2-3) assms(2) T[of c, unfolded A_lockq(2), simplified] Q[of c, unfolded A_lockq(2), simplified]
      by (auto simp: mutex_inv_def)
  next
    case (A_push c t d d')
    show ?thesis unfolding A_push(5)
      using A_push(2) assms(2) T[of c, unfolded A_push(2), simplified] Q[of c, unfolded A_push(2), simplified]
      by (auto simp: mutex_inv_def)
  next
    case (A_post c t)
    show ?thesis unfolding A_post(3)
      using A_post(2) assms(2) T[of c, unfolded A_post(2), simplified] Q[of c, unfolded A_post(2), simplified]
      by (auto simp: mutex_inv_def)
  next
    case (S_lock c n)
    show ?thesis unfolding S_lock(4)
      using S_lock(2-3) assms(2) T[of c, unfolded S_lock(2), simplified] Q[of c, unfolded S_lock(2), simplified]
      by (auto simp: mutex_inv_def)
  next
    case (S_test_grow c n)
    show ?thesis unfolding S_test_grow(4)
      using S_test_grow(2) assms(2) T[of c, unfolded S_test_grow(2), simplified] Q[of c, unfolded S_test_grow(2), simplified]
      by (auto simp: mutex_inv_def)
  next
    case (S_test_shrink c n)
    show ?thesis unfolding S_test_shrink(4)
      using S_test_shrink(2) assms(2) T[of c, unfolded S_test_shrink(2), simplified] Q[of c, unfolded S_test_shrink(2), simplified]
      by (auto simp: mutex_inv_def)
  next
    case (S_test_same c n)
    show ?thesis unfolding S_test_same(4)
      using S_test_same(2) assms(2) T[of c, unfolded S_test_same(2), simplified] Q[of c, unfolded S_test_same(2), simplified]
      by (auto simp: mutex_inv_def)
  next
    case (S_grow_add c n b)
    show ?thesis unfolding S_grow_add(4)
      using S_grow_add(2) assms(2) T[of c, unfolded S_grow_add(2), simplified] Q[of c, unfolded S_grow_add(2), simplified]
      by (auto simp: mutex_inv_def)
  next
    case (S_grow_done c n b)
    show ?thesis unfolding S_grow_done(4)
      using S_grow_done(2) assms(2) T[of c, unfolded S_grow_done(2), simplified] Q[of c, unfolded S_grow_done(2), simplified]
      by (auto simp: mutex_inv_def)
  next
    case (F_stop c k)
    show ?thesis unfolding F_stop(3)
      using F_stop(2) assms(2) T[of c, unfolded F_stop(2), simplified] Q[of c, unfolded F_stop(2), simplified]
      by (auto simp: mutex_inv_def)
  next
    case (F_loop_post c k i)
    show ?thesis unfolding F_loop_post(4)
      using F_loop_post(2) assms(2) T[of c, unfolded F_loop_post(2), simplified] Q[of c, unfolded F_loop_post(2), simplified]
      by (auto simp: mutex_inv_def)
  next
    case (F_loop_done c k i)
    show ?thesis unfolding F_loop_done(4)
      using F_loop_done(2) assms(2) T[of c, unfolded F_loop_done(2), simplified] Q[of c, unfolded F_loop_done(2), simplified]
      by (auto simp: mutex_inv_def)
  next
    case (F_wait c k i n)
    show ?thesis unfolding F_wait(4)
      using F_wait(2) assms(2) T[of c, unfolded F_wait(2), simplified] Q[of c, unfolded F_wait(2), simplified]
      by (auto simp: mutex_inv_def)
  next
    case (F_join c k w ws)
    show ?thesis unfolding F_join(4)
      using F_join(2-3) assms(2) T[of c, unfolded F_join(2), simplified] Q[of c, unfolded F_join(2), simplified]
      by (auto simp: mutex_inv_def)
  next
    case (F_join_done c k)
    show ?thesis unfolding F_join_done(4)
      using F_join_done(2-3) assms(2) T[of c, unfolded F_join_done(2), simplified] Q[of c, unfolded F_join_done(2), simplified]
      by (auto simp: mutex_inv_def)
  next
    case (F_clear_regrow c n)
    show ?thesis unfolding F_clear_regrow(3)
      using F_clear_regrow(2) assms(2) T[of c, unfolded F_clear_regrow(2), simplified] Q[of c, unfolded F_clear_regrow(2), simplified]
      by (auto simp: mutex_inv_def)
  next
    case (F_clear_destroy c)
    show ?thesis unfolding F_clear_destroy(3)
      using F_clear_destroy(2) assms(2) T[of c, unfolded F_clear_destroy(2), simplified] Q[of c, unfolded F_clear_destroy(2), simplified]
      by (auto simp: mutex_inv_def)
  next
    case (P_lock c)
    show ?thesis unfolding P_lock(4)
      using P_lock(2-3) assms(2) T[of c, unfolded P_lock(2), simplified] Q[of c, unfolded P_lock(2), simplified]
      by (auto simp: mutex_inv_def)
  next
    case (D_wait c g d)
    show ?thesis unfolding D_wait(5)
      using D_wait(2) assms(2) T[of c, unfolded D_wait(2), simplified] Q[of c, unfolded D_wait(2), simplified]
      by (auto simp: mutex_inv_def)
  next
    case (W_start w)
    show ?thesis unfolding W_start(3)
      using W_start(2) assms(2) W[OF W_start(2), simplified] N[OF W_start(2)]
      by (auto simp: mutex_inv_def)
  next
    case (W_wait w n)
    show ?thesis unfolding W_wait(4)
      using W_wait(2) assms(2) W[OF W_wait(2), simplified] N[OF W_wait(2)]
      by (auto simp: mutex_inv_def)
  next
    case (W_lock w)
    show ?thesis unfolding W_lock(4)
      using W_lock(2-3) assms(2) W[OF W_lock(2), simplified] N[OF W_lock(2)]
      by (auto simp: mutex_inv_def)
  next
    case (W_test_pop w t rest)
    show ?thesis unfolding W_test_pop(5)
      using W_test_pop(2) assms(2) W[OF W_test_pop(2), simplified] N[OF W_test_pop(2)]
      by (auto simp: mutex_inv_def)
  next
    case (W_test_exit w)
    show ?thesis unfolding W_test_exit(5)
      using W_test_exit(2) assms(2) W[OF W_test_exit(2), simplified] N[OF W_test_exit(2)]
      by (auto simp: mutex_inv_def)
  next
    case (W_test_again w)
    show ?thesis unfolding W_test_again(5)
      using W_test_again(2) assms(2) W[OF W_test_again(2), simplified] N[OF W_test_again(2)]
      by (auto simp: mutex_inv_def)
  next
    case (W_execute w t)
    show ?thesis unfolding W_execute(3)
      using W_execute(2) assms(2) W[OF W_execute(2), simplified] N[OF W_execute(2)]
      by (auto simp: mutex_inv_def)
  next
    case (W_executing w t)
    show ?thesis unfolding W_executing(3)
      using W_executing(2) assms(2) W[OF W_executing(2), simplified] N[OF W_executing(2)]
      by (auto simp: mutex_inv_def)
  next
    case (W_reacquire w t)
    show ?thesis unfolding W_reacquire(4)
      using W_reacquire(2-3) assms(2) W[OF W_reacquire(2), simplified] N[OF W_reacquire(2)]
      by (auto simp: mutex_inv_def)
  next
    case (W_retire w t d)
    show ?thesis unfolding W_retire(4)
      using W_retire(2) assms(2) W[OF W_retire(2), simplified] N[OF W_retire(2)]
      by (auto simp: mutex_inv_def)
  qed
qed

lemma reachable_mutex_inv: "reachable s \<Longrightarrow> mutex_inv s"
  by (induction rule: reachable.induct) (auto intro: mutex_inv_init mutex_inv_step)

text \<open>What the owner of \<open>threadMutex\<close> knows about the other callers.\<close>

lemma others:
  assumes "mutex_inv s" and "holds_threadMutex (callers s c)" and "c' \<noteq> c"
  shows "\<not> holds_threadMutex (callers s c')" and "\<not> finishing (callers s c')"
    and "callers s c' \<noteq> A_test t" and "callers s c' \<noteq> A_lockq t" and "callers s c' \<noteq> A_push t"
    and "callers s c' \<noteq> A_post t" and "callers s c' \<noteq> S_test n" and "callers s c' \<noteq> S_grow n b"
    and "callers s c' \<noteq> F_stop k" and "callers s c' \<noteq> F_loop k i" and "callers s c' \<noteq> F_wait k i"
    and "callers s c' \<noteq> F_join k ws" and "callers s c' \<noteq> F_clear k"
proof -
  from assms(1,2) have "threadMutex s = Some (Caller c)"
    by (auto simp: mutex_inv_def)
  with assms(1,3) show h: "\<not> holds_threadMutex (callers s c')"
    by (auto simp: mutex_inv_def)
  then show "\<not> finishing (callers s c')"
    by (cases "callers s c'") simp_all
  from h show "callers s c' \<noteq> A_test t" "callers s c' \<noteq> A_lockq t" "callers s c' \<noteq> A_push t"
    "callers s c' \<noteq> A_post t" "callers s c' \<noteq> S_test n" "callers s c' \<noteq> S_grow n b"
    "callers s c' \<noteq> F_stop k" "callers s c' \<noteq> F_loop k i" "callers s c' \<noteq> F_wait k i"
    "callers s c' \<noteq> F_join k ws" "callers s c' \<noteq> F_clear k"
    by auto
qed

lemma stop_inv_init: "stop_inv init"
  by (simp add: stop_inv_def init_def ThreadPool_Data_new_def)

lemma stop_inv_step:
  assumes "step l s = Some s'" and "mutex_inv s" and "stop_inv s"
  shows "stop_inv s'"
proof -
  have T: "\<And>c. holds_threadMutex (callers s c) \<Longrightarrow> threadMutex s = Some (Caller c)"
    using assms(2) by (auto simp add: mutex_inv_def)
  have F: "\<And>c. finishing (callers s c) \<Longrightarrow> stopping (pool s)"
    and H: "\<And>c. holds_threadMutex (callers s c) \<Longrightarrow> stopping (pool s) \<Longrightarrow> finishing (callers s c)"
    using assms(3) by (auto simp add: stop_inv_def)
  note O = others [OF assms(2)]
  from assms(1) show ?thesis
  proof (cases rule: step_cases)
    case (enter_addTask c t)
    show ?thesis unfolding enter_addTask(4)
      using enter_addTask(2) assms(3) T[of c, unfolded enter_addTask(2), simplified] F[of c, unfolded enter_addTask(2), simplified] H[of c, unfolded enter_addTask(2), simplified] O(1,2)[of c, unfolded enter_addTask(2), simplified]
      by (auto simp: stop_inv_def)
  next
    case (enter_setNumThreads_throw c n)
    show ?thesis unfolding enter_setNumThreads_throw(5)
      using enter_setNumThreads_throw(2) assms(3) T[of c, unfolded enter_setNumThreads_throw(2), simplified] F[of c, unfolded enter_setNumThreads_throw(2), simplified] H[of c, unfolded enter_setNumThreads_throw(2), simplified] O(1,2)[of c, unfolded enter_setNumThreads_throw(2), simplified]
      by (auto simp: stop_inv_def)
  next
    case (enter_setNumThreads c n)
    show ?thesis unfolding enter_setNumThreads(5)
      using enter_setNumThreads(2) assms(3) T[of c, unfolded enter_setNumThreads(2), simplified] F[of c, unfolded enter_setNumThreads(2), simplified] H[of c, unfolded enter_setNumThreads(2), simplified] O(1,2)[of c, unfolded enter_setNumThreads(2), simplified]
      by (auto simp: stop_inv_def)
  next
    case (enter_destroy_pool c)
    show ?thesis unfolding enter_destroy_pool(4)
      using enter_destroy_pool(2) assms(3) T[of c, unfolded enter_destroy_pool(2), simplified] F[of c, unfolded enter_destroy_pool(2), simplified] H[of c, unfolded enter_destroy_pool(2), simplified] O(1,2)[of c, unfolded enter_destroy_pool(2), simplified]
      by (auto simp: stop_inv_def)
  next
    case (enter_new_TaskGroup c g)
    show ?thesis unfolding enter_new_TaskGroup(4)
      using enter_new_TaskGroup(2) assms(3) T[of c, unfolded enter_new_TaskGroup(2), simplified] F[of c, unfolded enter_new_TaskGroup(2), simplified] H[of c, unfolded enter_new_TaskGroup(2), simplified] O(1,2)[of c, unfolded enter_new_TaskGroup(2), simplified]
      by (auto simp: stop_inv_def)
  next
    case (enter_delete_TaskGroup c g)
    show ?thesis unfolding enter_delete_TaskGroup(4)
      using enter_delete_TaskGroup(2) assms(3) T[of c, unfolded enter_delete_TaskGroup(2), simplified] F[of c, unfolded enter_delete_TaskGroup(2), simplified] H[of c, unfolded enter_delete_TaskGroup(2), simplified] O(1,2)[of c, unfolded enter_delete_TaskGroup(2), simplified]
      by (auto simp: stop_inv_def)
  next
    case (A_lock c t)
    show ?thesis unfolding A_lock(4)
      using A_lock(2-3) assms(3) T[of c, unfolded A_lock(2), simplified] F[of c, unfolded A_lock(2), simplified] H[of c, unfolded A_lock(2), simplified] O(1,2)[of c, unfolded A_lock(2), simplified]
      by (auto simp: stop_inv_def)
  next
    case (A_test c t)
    show ?thesis unfolding A_test(3)
      using A_test(2) assms(3) T[of c, unfolded A_test(2), simplified] F[of c, unfolded A_test(2), simplified] H[of c, unfolded A_test(2), simplified] O(1,2)[of c, unfolded A_test(2), simplified]
      by (auto simp: stop_inv_def)
  next
    case (A_execute c t)
    show ?thesis unfolding A_execute(3)
      using A_execute(2) assms(3) T[of c, unfolded A_execute(2), simplified] F[of c, unfolded A_execute(2), simplified] H[of c, unfolded A_execute(2), simplified] O(1,2)[of c, unfolded A_execute(2), simplified]
      by (auto simp: stop_inv_def)
  next
    case (A_executing c t)
    show ?thesis unfolding A_executing(3)
      using A_executing(2) assms(3) T[of c, unfolded A_executing(2), simplified] F[of c, unfolded A_executing(2), simplified] H[of c, unfolded A_executing(2), simplified] O(1,2)[of c, unfolded A_executing(2), simplified]
      by (auto simp: stop_inv_def)
  next
    case (A_delete c t)
    show ?thesis unfolding A_delete(3)
      using A_delete(2) assms(3) T[of c, unfolded A_delete(2), simplified] F[of c, unfolded A_delete(2), simplified] H[of c, unfolded A_delete(2), simplified] O(1,2)[of c, unfolded A_delete(2), simplified]
      by (auto simp: stop_inv_def)
  next
    case (A_lockq c t)
    show ?thesis unfolding A_lockq(4)
      using A_lockq(2) assms(3) T[of c, unfolded A_lockq(2), simplified] F[of c, unfolded A_lockq(2), simplified] H[of c, unfolded A_lockq(2), simplified] O(1,2)[of c, unfolded A_lockq(2), simplified]
      by (auto simp: stop_inv_def)
  next
    case (A_push c t d d')
    show ?thesis unfolding A_push(5)
      using A_push(2) assms(3) T[of c, unfolded A_push(2), simplified] F[of c, unfolded A_push(2), simplified] H[of c, unfolded A_push(2), simplified] O(1,2)[of c, unfolded A_push(2), simplified]
      by (auto simp: stop_inv_def)
  next
    case (A_post c t)
    show ?thesis unfolding A_post(3)
      using A_post(2) assms(3) T[of c, unfolded A_post(2), simplified] F[of c, unfolded A_post(2), simplified] H[of c, unfolded A_post(2), simplified] O(1,2)[of c, unfolded A_post(2), simplified]
      by (auto simp: stop_inv_def)
  next
    case (S_lock c n)
    show ?thesis unfolding S_lock(4)
      using S_lock(2-3) assms(3) T[of c, unfolded S_lock(2), simplified] F[of c, unfolded S_lock(2), simplified] H[of c, unfolded S_lock(2), simplified] O(1,2)[of c, unfolded S_lock(2), simplified]
      by (auto simp: stop_inv_def)
  next
    case (S_test_grow c n)
    show ?thesis unfolding S_test_grow(4)
      using S_test_grow(2) assms(3) T[of c, unfolded S_test_grow(2), simplified] F[of c, unfolded S_test_grow(2), simplified] H[of c, unfolded S_test_grow(2), simplified] O(1,2)[of c, unfolded S_test_grow(2), simplified]
      by (auto simp: stop_inv_def)
  next
    case (S_test_shrink c n)
    show ?thesis unfolding S_test_shrink(4)
      using S_test_shrink(2) assms(3) T[of c, unfolded S_test_shrink(2), simplified] F[of c, unfolded S_test_shrink(2), simplified] H[of c, unfolded S_test_shrink(2), simplified] O(1,2)[of c, unfolded S_test_shrink(2), simplified]
      by (auto simp: stop_inv_def)
  next
    case (S_test_same c n)
    show ?thesis unfolding S_test_same(4)
      using S_test_same(2) assms(3) T[of c, unfolded S_test_same(2), simplified] F[of c, unfolded S_test_same(2), simplified] H[of c, unfolded S_test_same(2), simplified] O(1,2)[of c, unfolded S_test_same(2), simplified]
      by (auto simp: stop_inv_def)
  next
    case (S_grow_add c n b)
    show ?thesis unfolding S_grow_add(4)
      using S_grow_add(2) assms(3) T[of c, unfolded S_grow_add(2), simplified] F[of c, unfolded S_grow_add(2), simplified] H[of c, unfolded S_grow_add(2), simplified] O(1,2)[of c, unfolded S_grow_add(2), simplified]
      by (auto simp: stop_inv_def)
  next
    case (S_grow_done c n b)
    show ?thesis unfolding S_grow_done(4)
      using S_grow_done(2) assms(3) T[of c, unfolded S_grow_done(2), simplified] F[of c, unfolded S_grow_done(2), simplified] H[of c, unfolded S_grow_done(2), simplified] O(1,2)[of c, unfolded S_grow_done(2), simplified]
      by (auto simp: stop_inv_def)
  next
    case (F_stop c k)
    show ?thesis unfolding F_stop(3)
      using F_stop(2) assms(3) T[of c, unfolded F_stop(2), simplified] F[of c, unfolded F_stop(2), simplified] H[of c, unfolded F_stop(2), simplified] O(1,2)[of c, unfolded F_stop(2), simplified]
      by (auto simp: stop_inv_def)
  next
    case (F_loop_post c k i)
    show ?thesis unfolding F_loop_post(4)
      using F_loop_post(2) assms(3) T[of c, unfolded F_loop_post(2), simplified] F[of c, unfolded F_loop_post(2), simplified] H[of c, unfolded F_loop_post(2), simplified] O(1,2)[of c, unfolded F_loop_post(2), simplified]
      by (auto simp: stop_inv_def)
  next
    case (F_loop_done c k i)
    show ?thesis unfolding F_loop_done(4)
      using F_loop_done(2) assms(3) T[of c, unfolded F_loop_done(2), simplified] F[of c, unfolded F_loop_done(2), simplified] H[of c, unfolded F_loop_done(2), simplified] O(1,2)[of c, unfolded F_loop_done(2), simplified]
      by (auto simp: stop_inv_def)
  next
    case (F_wait c k i n)
    show ?thesis unfolding F_wait(4)
      using F_wait(2) assms(3) T[of c, unfolded F_wait(2), simplified] F[of c, unfolded F_wait(2), simplified] H[of c, unfolded F_wait(2), simplified] O(1,2)[of c, unfolded F_wait(2), simplified]
      by (auto simp: stop_inv_def)
  next
    case (F_join c k w ws)
    show ?thesis unfolding F_join(4)
      using F_join(2) assms(3) T[of c, unfolded F_join(2), simplified] F[of c, unfolded F_join(2), simplified] H[of c, unfolded F_join(2), simplified] O(1,2)[of c, unfolded F_join(2), simplified]
      by (auto simp: stop_inv_def)
  next
    case (F_join_done c k)
    show ?thesis unfolding F_join_done(4)
      using F_join_done(2) assms(3) T[of c, unfolded F_join_done(2), simplified] F[of c, unfolded F_join_done(2), simplified] H[of c, unfolded F_join_done(2), simplified] O(1,2)[of c, unfolded F_join_done(2), simplified]
      by (auto simp: stop_inv_def)
  next
    case (F_clear_regrow c n)
    show ?thesis unfolding F_clear_regrow(3)
      using F_clear_regrow(2) assms(3) T[of c, unfolded F_clear_regrow(2), simplified] F[of c, unfolded F_clear_regrow(2), simplified] H[of c, unfolded F_clear_regrow(2), simplified] O(1,2)[of c, unfolded F_clear_regrow(2), simplified]
      by (auto simp: stop_inv_def)
  next
    case (F_clear_destroy c)
    show ?thesis unfolding F_clear_destroy(3)
      using F_clear_destroy(2) assms(3) T[of c, unfolded F_clear_destroy(2), simplified] F[of c, unfolded F_clear_destroy(2), simplified] H[of c, unfolded F_clear_destroy(2), simplified] O(1,2)[of c, unfolded F_clear_destroy(2), simplified]
      by (auto simp: stop_inv_def)
  next
    case (P_lock c)
    show ?thesis unfolding P_lock(4)
      using P_lock(2-3) assms(3) T[of c, unfolded P_lock(2), simplified] F[of c, unfolded P_lock(2), simplified] H[of c, unfolded P_lock(2), simplified] O(1,2)[of c, unfolded P_lock(2), simplified]
      by (auto simp: stop_inv_def)
  next
    case (D_wait c g d)
    show ?thesis unfolding D_wait(5)
      using D_wait(2) assms(3) T[of c, unfolded D_wait(2), simplified] F[of c, unfolded D_wait(2), simplified] H[of c, unfolded D_wait(2), simplified] O(1,2)[of c, unfolded D_wait(2), simplified]
      by (auto simp: stop_inv_def)
  next
    case (W_start w)
    show ?thesis unfolding W_start(3)
      using W_start(2) assms(3)
      by (auto simp: stop_inv_def)
  next
    case (W_wait w n)
    show ?thesis unfolding W_wait(4)
      using W_wait(2) assms(3)
      by (auto simp: stop_inv_def)
  next
    case (W_lock w)
    show ?thesis unfolding W_lock(4)
      using W_lock(2) assms(3)
      by (auto simp: stop_inv_def)
  next
    case (W_test_pop w t rest)
    show ?thesis unfolding W_test_pop(5)
      using W_test_pop(2) assms(3)
      by (auto simp: stop_inv_def)
  next
    case (W_test_exit w)
    show ?thesis unfolding W_test_exit(5)
      using W_test_exit(2) assms(3)
      by (auto simp: stop_inv_def)
  next
    case (W_test_again w)
    show ?thesis unfolding W_test_again(5)
      using W_test_again(2) assms(3)
      by (auto simp: stop_inv_def)
  next
    case (W_execute w t)
    show ?thesis unfolding W_execute(3)
      using W_execute(2) assms(3)
      by (auto simp: stop_inv_def)
  next
    case (W_executing w t)
    show ?thesis unfolding W_executing(3)
      using W_executing(2) assms(3)
      by (auto simp: stop_inv_def)
  next
    case (W_reacquire w t)
    show ?thesis unfolding W_reacquire(4)
      using W_reacquire(2) assms(3)
      by (auto simp: stop_inv_def)
  next
    case (W_retire w t d)
    show ?thesis unfolding W_retire(4)
      using W_retire(2) assms(3)
      by (auto simp: stop_inv_def)
  qed
qed

lemma reachable_stop_inv: "reachable s \<Longrightarrow> stop_inv s"
proof (induction rule: reachable.induct)
  case reachable_init
  show ?case by (rule stop_inv_init)
next
  case (reachable_step s l s')
  then show ?case by (auto intro: stop_inv_step reachable_mutex_inv)
qed

lemma threads_inv_init: "threads_inv init"
  by (simp add: threads_inv_def init_def ThreadPool_Data_new_def)

lemma threads_inv_step:
  assumes "step l s = Some s'" and "mutex_inv s" and "threads_inv s"
  shows "threads_inv s'"
proof -
  have D: "distinct (threads (pool s))" "numThreads (pool s) = length (threads (pool s))"
      "numTasks (pool s) = length (tasks (pool s))"
    and B: "\<And>w. w \<in> set (threads (pool s)) \<Longrightarrow> w < next_worker s"
    and L: "\<And>w pc. workers s w = Some pc \<Longrightarrow> w \<in> set (threads (pool s))"
    and J: "\<And>c k ws. callers s c = F_join k ws \<Longrightarrow>
              distinct ws \<and> (\<forall>w pc. workers s w = Some pc \<longrightarrow> w \<in> set ws)"
    and C: "\<And>c k w. callers s c = F_clear k \<Longrightarrow> workers s w = None"
    using assms(3) by (auto simp add: threads_inv_def)
  note O = others [OF assms(2)]
  from assms(1) show ?thesis
  proof (cases rule: step_cases)
    case (enter_addTask c t)
    show ?thesis unfolding enter_addTask(4)
      using enter_addTask(2) assms(3) O(12,13)[of c, unfolded enter_addTask(2), simplified]
      by (auto simp: threads_inv_def)
  next
    case (enter_setNumThreads_throw c n)
    show ?thesis unfolding enter_setNumThreads_throw(5)
      using enter_setNumThreads_throw(2) assms(3) O(12,13)[of c, unfolded enter_setNumThreads_throw(2), simplified]
      by (auto simp: threads_inv_def)
  next
    case (enter_setNumThreads c n)
    show ?thesis unfolding enter_setNumThreads(5)
      using enter_setNumThreads(2) assms(3) O(12,13)[of c, unfolded enter_setNumThreads(2), simplified]
      by (auto simp: threads_inv_def)
  next
    case (enter_destroy_pool c)
    show ?thesis unfolding enter_destroy_pool(4)
      using enter_destroy_pool(2) assms(3) O(12,13)[of c, unfolded enter_destroy_pool(2), simplified]
      by (auto simp: threads_inv_def)
  next
    case (enter_new_TaskGroup c g)
    show ?thesis unfolding enter_new_TaskGroup(4)
      using enter_new_TaskGroup(2) assms(3) O(12,13)[of c, unfolded enter_new_TaskGroup(2), simplified]
      by (auto simp: threads_inv_def)
  next
    case (enter_delete_TaskGroup c g)
    show ?thesis unfolding enter_delete_TaskGroup(4)
      using enter_delete_TaskGroup(2) assms(3) O(12,13)[of c, unfolded enter_delete_TaskGroup(2), simplified]
      by (auto simp: threads_inv_def)
  next
    case (A_lock c t)
    show ?thesis unfolding A_lock(4)
      using A_lock(2) assms(3) O(12,13)[of c, unfolded A_lock(2), simplified]
      by (auto simp: threads_inv_def)
  next
    case (A_test c t)
    show ?thesis unfolding A_test(3)
      using A_test(2) assms(3) O(12,13)[of c, unfolded A_test(2), simplified]
      by (auto simp: threads_inv_def)
  next
    case (A_execute c t)
    show ?thesis unfolding A_execute(3)
      using A_execute(2) assms(3) O(12,13)[of c, unfolded A_execute(2), simplified]
      by (auto simp: threads_inv_def)
  next
    case (A_executing c t)
    show ?thesis unfolding A_executing(3)
      using A_executing(2) assms(3) O(12,13)[of c, unfolded A_executing(2), simplified]
      by (auto simp: threads_inv_def)
  next
    case (A_delete c t)
    show ?thesis unfolding A_delete(3)
      using A_delete(2) assms(3) O(12,13)[of c, unfolded A_delete(2), simplified]
      by (auto simp: threads_inv_def)
  next
    case (A_lockq c t)
    show ?thesis unfolding A_lockq(4)
      using A_lockq(2) assms(3) O(12,13)[of c, unfolded A_lockq(2), simplified]
      by (auto simp: threads_inv_def)
  next
    case (A_push c t d d')
    show ?thesis unfolding A_push(5)
      using A_push(2) assms(3) O(12,13)[of c, unfolded A_push(2), simplified]
      by (auto simp: threads_inv_def)
  next
    case (A_post c t)
    show ?thesis unfolding A_post(3)
      using A_post(2) assms(3) O(12,13)[of c, unfolded A_post(2), simplified]
      by (auto simp: threads_inv_def)
  next
    case (S_lock c n)
    show ?thesis unfolding S_lock(4)
      using S_lock(2) assms(3) O(12,13)[of c, unfolded S_lock(2), simplified]
      by (auto simp: threads_inv_def)
  next
    case (S_test_grow c n)
    show ?thesis unfolding S_test_grow(4)
      using S_test_grow(2) assms(3) O(12,13)[of c, unfolded S_test_grow(2), simplified]
      by (auto simp: threads_inv_def)
  next
    case (S_test_shrink c n)
    show ?thesis unfolding S_test_shrink(4)
      using S_test_shrink(2) assms(3) O(12,13)[of c, unfolded S_test_shrink(2), simplified]
      by (auto simp: threads_inv_def)
  next
    case (S_test_same c n)
    show ?thesis unfolding S_test_same(4)
      using S_test_same(2) assms(3) O(12,13)[of c, unfolded S_test_same(2), simplified]
      by (auto simp: threads_inv_def)
  next
    case (S_grow_add c n b)
    have nj: "callers s c' \<noteq> F_join k ws" for c' k ws
      using O(12)[of c c' k ws] S_grow_add(2) by (cases "c' = c") simp_all
    have nc: "callers s c' \<noteq> F_clear k" for c' k
      using O(13)[of c c' k] S_grow_add(2) by (cases "c' = c") simp_all
    show ?thesis unfolding S_grow_add(4)
      using S_grow_add(2-3) assms(3) nj nc
      by (auto simp: threads_inv_def)
  next
    case (S_grow_done c n b)
    show ?thesis unfolding S_grow_done(4)
      using S_grow_done(2) assms(3) O(12,13)[of c, unfolded S_grow_done(2), simplified]
      by (auto simp: threads_inv_def)
  next
    case (F_stop c k)
    show ?thesis unfolding F_stop(3)
      using F_stop(2) assms(3) O(12,13)[of c, unfolded F_stop(2), simplified]
      by (auto simp: threads_inv_def)
  next
    case (F_loop_post c k i)
    show ?thesis unfolding F_loop_post(4)
      using F_loop_post(2) assms(3) O(12,13)[of c, unfolded F_loop_post(2), simplified]
      by (auto simp: threads_inv_def)
  next
    case (F_loop_done c k i)
    show ?thesis unfolding F_loop_done(4)
      using F_loop_done(2-3) assms(3) O(12,13)[of c, unfolded F_loop_done(2), simplified]
      by (auto simp: threads_inv_def)
  next
    case (F_wait c k i n)
    show ?thesis unfolding F_wait(4)
      using F_wait(2) assms(3) O(12,13)[of c, unfolded F_wait(2), simplified]
      by (auto simp: threads_inv_def)
  next
    case (F_join c k w ws)
    show ?thesis unfolding F_join(4)
      using F_join(2-3) assms(3) O(12,13)[of c, unfolded F_join(2), simplified] J[OF F_join(2)]
      by (auto simp: threads_inv_def)
  next
    case (F_join_done c k)
    show ?thesis unfolding F_join_done(4)
      using F_join_done(2) assms(3) O(12,13)[of c, unfolded F_join_done(2), simplified] J[OF F_join_done(2)]
      by (auto simp: threads_inv_def)
  next
    case (F_clear_regrow c n)
    show ?thesis unfolding F_clear_regrow(3)
      using F_clear_regrow(2) assms(3) O(12,13)[of c, unfolded F_clear_regrow(2), simplified]
      by (auto simp: threads_inv_def)
  next
    case (F_clear_destroy c)
    show ?thesis unfolding F_clear_destroy(3)
      using F_clear_destroy(2) assms(3) O(12,13)[of c, unfolded F_clear_destroy(2), simplified]
      by (auto simp: threads_inv_def)
  next
    case (P_lock c)
    show ?thesis unfolding P_lock(4)
      using P_lock(2) assms(3) O(12,13)[of c, unfolded P_lock(2), simplified]
      by (auto simp: threads_inv_def)
  next
    case (D_wait c g d)
    show ?thesis unfolding D_wait(5)
      using D_wait(2) assms(3) O(12,13)[of c, unfolded D_wait(2), simplified]
      by (auto simp: threads_inv_def)
  next
    case (W_start w)
    show ?thesis unfolding W_start(3)
      using W_start(2) assms(3) L[OF W_start(2)]
      by (auto simp: threads_inv_def)
  next
    case (W_wait w n)
    show ?thesis unfolding W_wait(4)
      using W_wait(2) assms(3) L[OF W_wait(2)]
      by (auto simp: threads_inv_def)
  next
    case (W_lock w)
    show ?thesis unfolding W_lock(4)
      using W_lock(2) assms(3) L[OF W_lock(2)]
      by (auto simp: threads_inv_def)
  next
    case (W_test_pop w t rest)
    show ?thesis unfolding W_test_pop(5)
      using W_test_pop(2-4) assms(3) L[OF W_test_pop(2)]
      by (auto simp: threads_inv_def)
  next
    case (W_test_exit w)
    show ?thesis unfolding W_test_exit(5)
      using W_test_exit(2) assms(3) L[OF W_test_exit(2)]
      by (auto simp: threads_inv_def)
  next
    case (W_test_again w)
    show ?thesis unfolding W_test_again(5)
      using W_test_again(2) assms(3) L[OF W_test_again(2)]
      by (auto simp: threads_inv_def)
  next
    case (W_execute w t)
    show ?thesis unfolding W_execute(3)
      using W_execute(2) assms(3) L[OF W_execute(2)]
      by (auto simp: threads_inv_def)
  next
    case (W_executing w t)
    show ?thesis unfolding W_executing(3)
      using W_executing(2) assms(3) L[OF W_executing(2)]
      by (auto simp: threads_inv_def)
  next
    case (W_reacquire w t)
    show ?thesis unfolding W_reacquire(4)
      using W_reacquire(2) assms(3) L[OF W_reacquire(2)]
      by (auto simp: threads_inv_def)
  next
    case (W_retire w t d)
    show ?thesis unfolding W_retire(4)
      using W_retire(2) assms(3) L[OF W_retire(2)]
      by (auto simp: threads_inv_def)
  qed
qed

lemma reachable_threads_inv: "reachable s \<Longrightarrow> threads_inv s"
proof (induction rule: reachable.induct)
  case reachable_init
  show ?case by (rule threads_inv_init)
next
  case (reachable_step s l s')
  then show ?case by (auto intro: threads_inv_step reachable_mutex_inv)
qed

lemma drain_inv_init: "drain_inv init"
  by (simp add: drain_inv_def init_def ThreadPool_Data_new_def)

lemma drain_inv_step:
  assumes "step l s = Some s'" and "mutex_inv s" and "stop_inv s" and "threads_inv s"
    and "drain_inv s"
  shows "drain_inv s'"
proof -
  have H: "\<And>c. holds_threadMutex (callers s c) \<Longrightarrow> stopping (pool s) \<Longrightarrow> finishing (callers s c)"
    using assms(3) by (auto simp add: stop_inv_def)
  have D: "numThreads (pool s) = length (threads (pool s))"
      "numTasks (pool s) = length (tasks (pool s))"
    and B: "\<And>w. w \<in> set (threads (pool s)) \<Longrightarrow> w < next_worker s"
    and L: "\<And>w pc. workers s w = Some pc \<Longrightarrow> w \<in> set (threads (pool s))"
    using assms(4) by (auto simp add: threads_inv_def)
  have A: "\<And>c t. callers s c = A_lockq t \<or> callers s c = A_push t \<Longrightarrow> 0 < numThreads (pool s)"
    using assms(5) by (auto simp add: drain_inv_def)
  note O = others [OF assms(2)]
  from assms(1) show ?thesis
  proof (cases rule: step_cases)
    case (enter_addTask c t)
    show ?thesis unfolding enter_addTask(4)
      using enter_addTask(2-3) assms(5) D H[of c, unfolded enter_addTask(2), simplified] O(4,5)[of c, unfolded enter_addTask(2), simplified] A[of c, unfolded enter_addTask(2), simplified]
      by (auto simp: drain_inv_def)
  next
    case (enter_setNumThreads_throw c n)
    show ?thesis unfolding enter_setNumThreads_throw(5)
      using enter_setNumThreads_throw(2-4) assms(5) D H[of c, unfolded enter_setNumThreads_throw(2), simplified] O(4,5)[of c, unfolded enter_setNumThreads_throw(2), simplified] A[of c, unfolded enter_setNumThreads_throw(2), simplified]
      by (auto simp: drain_inv_def)
  next
    case (enter_setNumThreads c n)
    show ?thesis unfolding enter_setNumThreads(5)
      using enter_setNumThreads(2-4) assms(5) D H[of c, unfolded enter_setNumThreads(2), simplified] O(4,5)[of c, unfolded enter_setNumThreads(2), simplified] A[of c, unfolded enter_setNumThreads(2), simplified]
      by (auto simp: drain_inv_def)
  next
    case (enter_destroy_pool c)
    show ?thesis unfolding enter_destroy_pool(4)
      using enter_destroy_pool(2-3) assms(5) D H[of c, unfolded enter_destroy_pool(2), simplified] O(4,5)[of c, unfolded enter_destroy_pool(2), simplified] A[of c, unfolded enter_destroy_pool(2), simplified]
      by (auto simp: drain_inv_def)
  next
    case (enter_new_TaskGroup c g)
    show ?thesis unfolding enter_new_TaskGroup(4)
      using enter_new_TaskGroup(2-3) assms(5) D H[of c, unfolded enter_new_TaskGroup(2), simplified] O(4,5)[of c, unfolded enter_new_TaskGroup(2), simplified] A[of c, unfolded enter_new_TaskGroup(2), simplified]
      by (auto simp: drain_inv_def)
  next
    case (enter_delete_TaskGroup c g)
    show ?thesis unfolding enter_delete_TaskGroup(4)
      using enter_delete_TaskGroup(2-3) assms(5) D H[of c, unfolded enter_delete_TaskGroup(2), simplified] O(4,5)[of c, unfolded enter_delete_TaskGroup(2), simplified] A[of c, unfolded enter_delete_TaskGroup(2), simplified]
      by (auto simp: drain_inv_def)
  next
    case (A_lock c t)
    show ?thesis unfolding A_lock(4)
      using A_lock(2-3) assms(5) D H[of c, unfolded A_lock(2), simplified] O(4,5)[of c, unfolded A_lock(2), simplified] A[of c, unfolded A_lock(2), simplified]
      by (auto simp: drain_inv_def)
  next
    case (A_test c t)
    show ?thesis unfolding A_test(3)
      using A_test(2) assms(5) D H[of c, unfolded A_test(2), simplified] O(4,5)[of c, unfolded A_test(2), simplified] A[of c, unfolded A_test(2), simplified]
      by (auto simp: drain_inv_def)
  next
    case (A_execute c t)
    show ?thesis unfolding A_execute(3)
      using A_execute(2) assms(5) D H[of c, unfolded A_execute(2), simplified] O(4,5)[of c, unfolded A_execute(2), simplified] A[of c, unfolded A_execute(2), simplified]
      by (auto simp: drain_inv_def)
  next
    case (A_executing c t)
    show ?thesis unfolding A_executing(3)
      using A_executing(2) assms(5) D H[of c, unfolded A_executing(2), simplified] O(4,5)[of c, unfolded A_executing(2), simplified] A[of c, unfolded A_executing(2), simplified]
      by (auto simp: drain_inv_def)
  next
    case (A_delete c t)
    show ?thesis unfolding A_delete(3)
      using A_delete(2) assms(5) D H[of c, unfolded A_delete(2), simplified] O(4,5)[of c, unfolded A_delete(2), simplified] A[of c, unfolded A_delete(2), simplified]
      by (auto simp: drain_inv_def)
  next
    case (A_lockq c t)
    show ?thesis unfolding A_lockq(4)
      using A_lockq(2-3) assms(5) D H[of c, unfolded A_lockq(2), simplified] O(4,5)[of c, unfolded A_lockq(2), simplified] A[of c, unfolded A_lockq(2), simplified]
      by (auto simp: drain_inv_def)
  next
    case (A_push c t d d')
    show ?thesis unfolding A_push(5)
      using A_push(2-4) assms(5) D H[of c, unfolded A_push(2), simplified] O(4,5)[of c, unfolded A_push(2), simplified] A[of c, unfolded A_push(2), simplified]
      by (auto simp: drain_inv_def)
  next
    case (A_post c t)
    show ?thesis unfolding A_post(3)
      using A_post(2) assms(5) D H[of c, unfolded A_post(2), simplified] O(4,5)[of c, unfolded A_post(2), simplified] A[of c, unfolded A_post(2), simplified]
      by (auto simp: drain_inv_def)
  next
    case (S_lock c n)
    show ?thesis unfolding S_lock(4)
      using S_lock(2-3) assms(5) D H[of c, unfolded S_lock(2), simplified] O(4,5)[of c, unfolded S_lock(2), simplified] A[of c, unfolded S_lock(2), simplified]
      by (auto simp: drain_inv_def)
  next
    case (S_test_grow c n)
    show ?thesis unfolding S_test_grow(4)
      using S_test_grow(2-3) assms(5) D H[of c, unfolded S_test_grow(2), simplified] O(4,5)[of c, unfolded S_test_grow(2), simplified] A[of c, unfolded S_test_grow(2), simplified]
      by (auto simp: drain_inv_def)
  next
    case (S_test_shrink c n)
    show ?thesis unfolding S_test_shrink(4)
      using S_test_shrink(2-3) assms(5) D H[of c, unfolded S_test_shrink(2), simplified] O(4,5)[of c, unfolded S_test_shrink(2), simplified] A[of c, unfolded S_test_shrink(2), simplified]
      by (auto simp: drain_inv_def)
  next
    case (S_test_same c n)
    show ?thesis unfolding S_test_same(4)
      using S_test_same(2-3) assms(5) D H[of c, unfolded S_test_same(2), simplified] O(4,5)[of c, unfolded S_test_same(2), simplified] A[of c, unfolded S_test_same(2), simplified]
      by (auto simp: drain_inv_def)
  next
    case (S_grow_add c n b)
    show ?thesis unfolding S_grow_add(4)
      using S_grow_add(2-3) assms(5) D H[of c, unfolded S_grow_add(2), simplified] O(4,5)[of c, unfolded S_grow_add(2), simplified] A[of c, unfolded S_grow_add(2), simplified] B
      by (auto simp: drain_inv_def)
  next
    case (S_grow_done c n b)
    show ?thesis unfolding S_grow_done(4)
      using S_grow_done(2-3) assms(5) D H[of c, unfolded S_grow_done(2), simplified] O(4,5)[of c, unfolded S_grow_done(2), simplified] A[of c, unfolded S_grow_done(2), simplified]
      by (auto simp: drain_inv_def)
  next
    case (F_stop c k)
    show ?thesis unfolding F_stop(3)
      using F_stop(2) assms(5) D H[of c, unfolded F_stop(2), simplified] O(4,5)[of c, unfolded F_stop(2), simplified] A[of c, unfolded F_stop(2), simplified]
      by (auto simp: drain_inv_def)
  next
    case (F_loop_post c k i)
    show ?thesis unfolding F_loop_post(4)
      using F_loop_post(2-3) assms(5) D H[of c, unfolded F_loop_post(2), simplified] O(4,5)[of c, unfolded F_loop_post(2), simplified] A[of c, unfolded F_loop_post(2), simplified]
      by (auto simp: drain_inv_def)
  next
    case (F_loop_done c k i)
    show ?thesis unfolding F_loop_done(4)
      using F_loop_done(2-3) assms(5) D H[of c, unfolded F_loop_done(2), simplified] O(4,5)[of c, unfolded F_loop_done(2), simplified] A[of c, unfolded F_loop_done(2), simplified]
      by (auto simp: drain_inv_def)
  next
    case (F_wait c k i n)
    show ?thesis unfolding F_wait(4)
      using F_wait(2-3) assms(5) D H[of c, unfolded F_wait(2), simplified] O(4,5)[of c, unfolded F_wait(2), simplified] A[of c, unfolded F_wait(2), simplified]
      by (auto simp: drain_inv_def)
  next
    case (F_join c k w ws)
    show ?thesis unfolding F_join(4)
      using F_join(2-3) assms(5) D H[of c, unfolded F_join(2), simplified] O(4,5)[of c, unfolded F_join(2), simplified] A[of c, unfolded F_join(2), simplified]
      by (auto simp: drain_inv_def)
  next
    case (F_join_done c k)
    show ?thesis unfolding F_join_done(4)
      using F_join_done(2-3) assms(5) D H[of c, unfolded F_join_done(2), simplified] O(4,5)[of c, unfolded F_join_done(2), simplified] A[of c, unfolded F_join_done(2), simplified]
      by (auto simp: drain_inv_def)
  next
    case (F_clear_regrow c n)
    show ?thesis unfolding F_clear_regrow(3)
      using F_clear_regrow(2) assms(5) D H[of c, unfolded F_clear_regrow(2), simplified] O(4,5)[of c, unfolded F_clear_regrow(2), simplified] A[of c, unfolded F_clear_regrow(2), simplified]
      by (auto simp: drain_inv_def)
  next
    case (F_clear_destroy c)
    show ?thesis unfolding F_clear_destroy(3)
      using F_clear_destroy(2) assms(5) D H[of c, unfolded F_clear_destroy(2), simplified] O(4,5)[of c, unfolded F_clear_destroy(2), simplified] A[of c, unfolded F_clear_destroy(2), simplified]
      by (auto simp: drain_inv_def)
  next
    case (P_lock c)
    show ?thesis unfolding P_lock(4)
      using P_lock(2-3) assms(5) D H[of c, unfolded P_lock(2), simplified] O(4,5)[of c, unfolded P_lock(2), simplified] A[of c, unfolded P_lock(2), simplified]
      by (auto simp: drain_inv_def)
  next
    case (D_wait c g d)
    show ?thesis unfolding D_wait(5)
      using D_wait(2-4) assms(5) D H[of c, unfolded D_wait(2), simplified] O(4,5)[of c, unfolded D_wait(2), simplified] A[of c, unfolded D_wait(2), simplified]
      by (auto simp: drain_inv_def)
  next
    case (W_start w)
    show ?thesis unfolding W_start(3)
      using W_start(2) assms(5) D L[OF W_start(2)]
      by (auto simp: drain_inv_def)
  next
    case (W_wait w n)
    show ?thesis unfolding W_wait(4)
      using W_wait(2-3) assms(5) D L[OF W_wait(2)]
      by (auto simp: drain_inv_def)
  next
    case (W_lock w)
    show ?thesis unfolding W_lock(4)
      using W_lock(2-3) assms(5) D L[OF W_lock(2)]
      by (auto simp: drain_inv_def)
  next
    case (W_test_pop w t rest)
    show ?thesis unfolding W_test_pop(5)
      using W_test_pop(2-4) assms(5) D L[OF W_test_pop(2)]
      by (auto simp: drain_inv_def)
  next
    case (W_test_exit w)
    show ?thesis unfolding W_test_exit(5)
      using W_test_exit(2-4) assms(5) D L[OF W_test_exit(2)]
      by (auto simp: drain_inv_def)
  next
    case (W_test_again w)
    show ?thesis unfolding W_test_again(5)
      using W_test_again(2-4) assms(5) D L[OF W_test_again(2)]
      by (auto simp: drain_inv_def)
  next
    case (W_execute w t)
    show ?thesis unfolding W_execute(3)
      using W_execute(2) assms(5) D L[OF W_execute(2)]
      by (auto simp: drain_inv_def)
  next
    case (W_executing w t)
    show ?thesis unfolding W_executing(3)
      using W_executing(2) assms(5) D L[OF W_executing(2)]
      by (auto simp: drain_inv_def)
  next
    case (W_reacquire w t)
    show ?thesis unfolding W_reacquire(4)
      using W_reacquire(2-3) assms(5) D L[OF W_reacquire(2)]
      by (auto simp: drain_inv_def)
  next
    case (W_retire w t d)
    show ?thesis unfolding W_retire(4)
      using W_retire(2-3) assms(5) D L[OF W_retire(2)]
      by (auto simp: drain_inv_def)
  qed
qed

lemma reachable_drain_inv: "reachable s \<Longrightarrow> drain_inv s"
proof (induction rule: reachable.induct)
  case reachable_init
  show ?case by (rule drain_inv_init)
next
  case (reachable_step s l s')
  then show ?case
    by (auto intro: drain_inv_step reachable_mutex_inv reachable_stop_inv reachable_threads_inv)
qed

lemma quiet_inv_init: "quiet_inv init"
  by (simp add: quiet_inv_def init_def)

lemma quiet_inv_step:
  assumes "step l s = Some s'" and "mutex_inv s" and "threads_inv s" and "drain_inv s"
    and "quiet_inv s"
  shows "quiet_inv s'"
proof -
  have J: "\<And>c k ws. callers s c = F_join k ws \<Longrightarrow>
              (\<forall>w pc. workers s w = Some pc \<longrightarrow> w \<in> set ws)"
    and C: "\<And>c k w. callers s c = F_clear k \<Longrightarrow> workers s w = None"
    and D: "numThreads (pool s) = length (threads (pool s))"
    using assms(3) by (auto simp add: threads_inv_def)
  have E: "\<And>w. w \<in> set (threads (pool s)) \<Longrightarrow> workers s w = None \<Longrightarrow> tasks (pool s) = []"
    and Z: "numThreads (pool s) = 0 \<Longrightarrow> tasks (pool s) = []"
    using assms(4) by (auto simp add: drain_inv_def)
  have G: "\<And>c n w pc. callers s c = S_grow n True \<Longrightarrow> workers s w = Some pc \<Longrightarrow>
              carried (Some pc) = []"
    and K: "\<And>c k. callers s c = F_clear k \<Longrightarrow> tasks (pool s) = []"
    and K': "\<And>c n. callers s c = S_grow n True \<Longrightarrow> tasks (pool s) = []"
    using assms(5) by (auto simp add: quiet_inv_def)
  note O = others [OF assms(2)]
  from assms(1) show ?thesis
  proof (cases rule: step_cases)
    case (enter_addTask c t)
    show ?thesis unfolding enter_addTask(4)
      using enter_addTask(2) assms(5) O(8,13)[of c, unfolded enter_addTask(2), simplified] C[of c, unfolded enter_addTask(2), simplified]
      by (auto simp: quiet_inv_def)
  next
    case (enter_setNumThreads_throw c n)
    show ?thesis unfolding enter_setNumThreads_throw(5)
      using enter_setNumThreads_throw(2) assms(5) O(8,13)[of c, unfolded enter_setNumThreads_throw(2), simplified] C[of c, unfolded enter_setNumThreads_throw(2), simplified]
      by (auto simp: quiet_inv_def)
  next
    case (enter_setNumThreads c n)
    show ?thesis unfolding enter_setNumThreads(5)
      using enter_setNumThreads(2) assms(5) O(8,13)[of c, unfolded enter_setNumThreads(2), simplified] C[of c, unfolded enter_setNumThreads(2), simplified]
      by (auto simp: quiet_inv_def)
  next
    case (enter_destroy_pool c)
    show ?thesis unfolding enter_destroy_pool(4)
      using enter_destroy_pool(2) assms(5) O(8,13)[of c, unfolded enter_destroy_pool(2), simplified] C[of c, unfolded enter_destroy_pool(2), simplified]
      by (auto simp: quiet_inv_def)
  next
    case (enter_new_TaskGroup c g)
    show ?thesis unfolding enter_new_TaskGroup(4)
      using enter_new_TaskGroup(2) assms(5) O(8,13)[of c, unfolded enter_new_TaskGroup(2), simplified] C[of c, unfolded enter_new_TaskGroup(2), simplified]
      by (auto simp: quiet_inv_def)
  next
    case (enter_delete_TaskGroup c g)
    show ?thesis unfolding enter_delete_TaskGroup(4)
      using enter_delete_TaskGroup(2) assms(5) O(8,13)[of c, unfolded enter_delete_TaskGroup(2), simplified] C[of c, unfolded enter_delete_TaskGroup(2), simplified]
      by (auto simp: quiet_inv_def)
  next
    case (A_lock c t)
    show ?thesis unfolding A_lock(4)
      using A_lock(2) assms(5) O(8,13)[of c, unfolded A_lock(2), simplified] C[of c, unfolded A_lock(2), simplified]
      by (auto simp: quiet_inv_def)
  next
    case (A_test c t)
    show ?thesis unfolding A_test(3)
      using A_test(2) assms(5) O(8,13)[of c, unfolded A_test(2), simplified] C[of c, unfolded A_test(2), simplified]
      by (auto simp: quiet_inv_def)
  next
    case (A_execute c t)
    show ?thesis unfolding A_execute(3)
      using A_execute(2) assms(5) O(8,13)[of c, unfolded A_execute(2), simplified] C[of c, unfolded A_execute(2), simplified]
      by (auto simp: quiet_inv_def)
  next
    case (A_executing c t)
    show ?thesis unfolding A_executing(3)
      using A_executing(2) assms(5) O(8,13)[of c, unfolded A_executing(2), simplified] C[of c, unfolded A_executing(2), simplified]
      by (auto simp: quiet_inv_def)
  next
    case (A_delete c t)
    show ?thesis unfolding A_delete(3)
      using A_delete(2) assms(5) O(8,13)[of c, unfolded A_delete(2), simplified] C[of c, unfolded A_delete(2), simplified]
      by (auto simp: quiet_inv_def)
  next
    case (A_lockq c t)
    show ?thesis unfolding A_lockq(4)
      using A_lockq(2) assms(5) O(8,13)[of c, unfolded A_lockq(2), simplified] C[of c, unfolded A_lockq(2), simplified]
      by (auto simp: quiet_inv_def)
  next
    case (A_push c t d d')
    show ?thesis unfolding A_push(5)
      using A_push(2) assms(5) O(8,13)[of c, unfolded A_push(2), simplified] C[of c, unfolded A_push(2), simplified]
      by (auto simp: quiet_inv_def)
  next
    case (A_post c t)
    show ?thesis unfolding A_post(3)
      using A_post(2) assms(5) O(8,13)[of c, unfolded A_post(2), simplified] C[of c, unfolded A_post(2), simplified]
      by (auto simp: quiet_inv_def)
  next
    case (S_lock c n)
    show ?thesis unfolding S_lock(4)
      using S_lock(2) assms(5) O(8,13)[of c, unfolded S_lock(2), simplified] C[of c, unfolded S_lock(2), simplified]
      by (auto simp: quiet_inv_def)
  next
    case (S_test_grow c n)
    show ?thesis unfolding S_test_grow(4)
      using S_test_grow(2) assms(5) O(8,13)[of c, unfolded S_test_grow(2), simplified] C[of c, unfolded S_test_grow(2), simplified]
      by (auto simp: quiet_inv_def)
  next
    case (S_test_shrink c n)
    show ?thesis unfolding S_test_shrink(4)
      using S_test_shrink(2) assms(5) O(8,13)[of c, unfolded S_test_shrink(2), simplified] C[of c, unfolded S_test_shrink(2), simplified]
      by (auto simp: quiet_inv_def)
  next
    case (S_test_same c n)
    show ?thesis unfolding S_test_same(4)
      using S_test_same(2) assms(5) O(8,13)[of c, unfolded S_test_same(2), simplified] C[of c, unfolded S_test_same(2), simplified]
      by (auto simp: quiet_inv_def)
  next
    case (S_grow_add c n b)
    have nc: "callers s c' \<noteq> F_clear k" for c' k
      using O(13)[of c c' k] S_grow_add(2) by (cases "c' = c") simp_all
    show ?thesis unfolding S_grow_add(4)
      using S_grow_add(2) assms(5) nc O(8)[of c, unfolded S_grow_add(2), simplified]
      by (auto simp: quiet_inv_def)
  next
    case (S_grow_done c n b)
    show ?thesis unfolding S_grow_done(4)
      using S_grow_done(2) assms(5) O(8,13)[of c, unfolded S_grow_done(2), simplified] C[of c, unfolded S_grow_done(2), simplified]
      by (auto simp: quiet_inv_def)
  next
    case (F_stop c k)
    show ?thesis unfolding F_stop(3)
      using F_stop(2) assms(5) O(8,13)[of c, unfolded F_stop(2), simplified] C[of c, unfolded F_stop(2), simplified]
      by (auto simp: quiet_inv_def)
  next
    case (F_loop_post c k i)
    show ?thesis unfolding F_loop_post(4)
      using F_loop_post(2) assms(5) O(8,13)[of c, unfolded F_loop_post(2), simplified] C[of c, unfolded F_loop_post(2), simplified]
      by (auto simp: quiet_inv_def)
  next
    case (F_loop_done c k i)
    show ?thesis unfolding F_loop_done(4)
      using F_loop_done(2) assms(5) O(8,13)[of c, unfolded F_loop_done(2), simplified] C[of c, unfolded F_loop_done(2), simplified]
      by (auto simp: quiet_inv_def)
  next
    case (F_wait c k i n)
    show ?thesis unfolding F_wait(4)
      using F_wait(2) assms(5) O(8,13)[of c, unfolded F_wait(2), simplified] C[of c, unfolded F_wait(2), simplified]
      by (auto simp: quiet_inv_def)
  next
    case (F_join c k w ws)
    show ?thesis unfolding F_join(4)
      using F_join(2) assms(5) O(8,13)[of c, unfolded F_join(2), simplified] C[of c, unfolded F_join(2), simplified]
      by (auto simp: quiet_inv_def)
  next
    case (F_join_done c k)
    have none: "workers s w = None" for w
      using J[OF F_join_done(2)] by (cases "workers s w") auto
    have "tasks (pool s) = []"
    proof (cases "threads (pool s)")
      case Nil
      with D Z show ?thesis by simp
    next
      case (Cons w ws)
      with E[of w] none show ?thesis by simp
    qed
    then show ?thesis unfolding F_join_done(4)
      using F_join_done(2) assms(5) O(8,13)[of c, unfolded F_join_done(2), simplified]
      by (auto simp: quiet_inv_def)
  next
    case (F_clear_regrow c n)
    show ?thesis unfolding F_clear_regrow(3)
      using F_clear_regrow(2) assms(5) O(8,13)[of c, unfolded F_clear_regrow(2), simplified] C[of c, unfolded F_clear_regrow(2), simplified]
      by (auto simp: quiet_inv_def)
  next
    case (F_clear_destroy c)
    show ?thesis unfolding F_clear_destroy(3)
      using F_clear_destroy(2) assms(5) O(8,13)[of c, unfolded F_clear_destroy(2), simplified] C[of c, unfolded F_clear_destroy(2), simplified]
      by (auto simp: quiet_inv_def)
  next
    case (P_lock c)
    show ?thesis unfolding P_lock(4)
      using P_lock(2) assms(5) O(8,13)[of c, unfolded P_lock(2), simplified] C[of c, unfolded P_lock(2), simplified]
      by (auto simp: quiet_inv_def)
  next
    case (D_wait c g d)
    show ?thesis unfolding D_wait(5)
      using D_wait(2) assms(5) O(8,13)[of c, unfolded D_wait(2), simplified] C[of c, unfolded D_wait(2), simplified]
      by (auto simp: quiet_inv_def)
  next
    case (W_start w)
    show ?thesis unfolding W_start(3)
      using W_start(2) assms(5) G[OF _ W_start(2), simplified] K K'
      by (auto simp: quiet_inv_def)
  next
    case (W_wait w n)
    show ?thesis unfolding W_wait(4)
      using W_wait(2) assms(5) G[OF _ W_wait(2), simplified] K K'
      by (auto simp: quiet_inv_def)
  next
    case (W_lock w)
    show ?thesis unfolding W_lock(4)
      using W_lock(2) assms(5) G[OF _ W_lock(2), simplified] K K'
      by (auto simp: quiet_inv_def)
  next
    case (W_test_pop w t rest)
    show ?thesis unfolding W_test_pop(5)
      using W_test_pop(2-4) assms(5) G[OF _ W_test_pop(2), simplified] K K'
      by (auto simp: quiet_inv_def)
  next
    case (W_test_exit w)
    show ?thesis unfolding W_test_exit(5)
      using W_test_exit(2) assms(5) G[OF _ W_test_exit(2), simplified] K K'
      by (auto simp: quiet_inv_def)
  next
    case (W_test_again w)
    show ?thesis unfolding W_test_again(5)
      using W_test_again(2) assms(5) G[OF _ W_test_again(2), simplified] K K'
      by (auto simp: quiet_inv_def)
  next
    case (W_execute w t)
    show ?thesis unfolding W_execute(3)
      using W_execute(2) assms(5) G[OF _ W_execute(2), simplified] K K'
      by (auto simp: quiet_inv_def)
  next
    case (W_executing w t)
    show ?thesis unfolding W_executing(3)
      using W_executing(2) assms(5) G[OF _ W_executing(2), simplified] K K'
      by (auto simp: quiet_inv_def)
  next
    case (W_reacquire w t)
    show ?thesis unfolding W_reacquire(4)
      using W_reacquire(2) assms(5) G[OF _ W_reacquire(2), simplified] K K'
      by (auto simp: quiet_inv_def)
  next
    case (W_retire w t d)
    show ?thesis unfolding W_retire(4)
      using W_retire(2) assms(5) G[OF _ W_retire(2), simplified] K K'
      by (auto simp: quiet_inv_def)
  qed
qed

lemma reachable_quiet_inv: "reachable s \<Longrightarrow> quiet_inv s"
proof (induction rule: reachable.induct)
  case reachable_init
  show ?case by (rule quiet_inv_init)
next
  case (reachable_step s l s')
  then show ?case
    by (auto intro: quiet_inv_step reachable_mutex_inv reachable_threads_inv reachable_drain_inv)
qed

subsection \<open>The tasks in the hands of the workers\<close>

lemma hands_frame [simp]:
  "hands f (at c pc s) = hands f s"
  "hands f (logged e s) = hands f s"
  "hands f (s\<lparr>taskMutex := m\<rparr>) = hands f s"
  "hands f (s\<lparr>threadMutex := m\<rparr>) = hands f s"
  "hands f (s\<lparr>taskSemaphore := k\<rparr>) = hands f s"
  "hands f (s\<lparr>threadSemaphore := k\<rparr>) = hands f s"
  "hands f (s\<lparr>heap := h\<rparr>) = hands f s"
  "hands f (s\<lparr>alive := b\<rparr>) = hands f s"
  "hands f (s\<lparr>next_worker := k\<rparr>) = hands f s"
  by (simp_all add: hands_def)

lemma hands_pool:
  "threads p = threads (pool s) \<Longrightarrow> hands f (s\<lparr>pool := p\<rparr>) = hands f s"
  by (simp add: hands_def)

lemma hands_none: "(\<And>w. f (workers s w) = []) \<Longrightarrow> hands f s = []"
  by (simp add: hands_def)

lemma hands_no_threads: "threads (pool s) = [] \<Longrightarrow> hands f s = []"
  by (simp add: hands_def)

lemma map_upd_same:
  "f v = f (g w) \<Longrightarrow> map (\<lambda>x. f ((g(w := v)) x)) xs = map (\<lambda>x. f (g x)) xs"
  by (induction xs) auto

lemma map_upd_notin:
  "w \<notin> set xs \<Longrightarrow> map (\<lambda>x. f ((g(w := v)) x)) xs = map (\<lambda>x. f (g x)) xs"
  by (induction xs) auto

lemma hands_same:
  "f v = f (workers s w) \<Longrightarrow> hands f (s\<lparr>workers := (workers s)(w := v)\<rparr>) = hands f s"
  by (simp add: hands_def map_upd_same del: fun_upd_apply)

lemma hands_wat_same:
  "f (Some pc) = f (workers s w) \<Longrightarrow> hands f (wat w pc s) = hands f s"
  by (simp add: wat_def hands_same)

lemma hands_spawn:
  assumes "w \<notin> set (threads (pool s))" and "f (Some W_start) = []"
  shows "hands f (wat w W_start
           (s\<lparr>pool := (pool s)\<lparr>threads := threads (pool s) @ [w], numThreads := k\<rparr>,
              next_worker := m\<rparr>)) = hands f s"
  using assms
  by (simp add: hands_def wat_def map_upd_notin del: fun_upd_apply) simp

text \<open>Changing what one worker of the list carries changes that part of the list.\<close>

lemma concat_map_upd:
  assumes "distinct ws" and "w \<in> set ws"
  shows "\<exists>xs ys. concat (map (\<lambda>x. f (g x)) ws) = xs @ f (g w) @ ys \<and>
           (\<forall>v. concat (map (\<lambda>x. f ((g(w := v)) x)) ws) = xs @ f v @ ys)"
proof -
  from assms(2) obtain as bs where ws: "ws = as @ w # bs"
    by (auto simp: in_set_conv_decomp)
  with assms(1) have n: "w \<notin> set as" "w \<notin> set bs"
    by auto
  let ?xs = "concat (map (\<lambda>x. f (g x)) as)"
  let ?ys = "concat (map (\<lambda>x. f (g x)) bs)"
  have "concat (map (\<lambda>x. f (g x)) ws) = ?xs @ f (g w) @ ?ys"
    by (simp add: ws)
  moreover have "concat (map (\<lambda>x. f ((g(w := v)) x)) ws) = ?xs @ f v @ ?ys" for v
    unfolding ws map_append list.map concat_append concat.simps
      map_upd_notin [OF n(1)] map_upd_notin [OF n(2)]
    by simp
  ultimately show ?thesis by blast
qed

lemma hands_wat:
  assumes "distinct (threads (pool s))" and "w \<in> set (threads (pool s))"
  shows "\<exists>xs ys. hands f s = xs @ f (workers s w) @ ys \<and>
                 (\<forall>pc. hands f (wat w pc s) = xs @ f (Some pc) @ ys)"
  using concat_map_upd [OF assms, of f "workers s"]
  by (simp add: hands_def wat_def del: fun_upd_apply) blast

text \<open>Under a list of at most one thread there is nobody else.\<close>

lemma hands_single:
  assumes "length (threads (pool s)) \<le> 1" and "w \<in> set (threads (pool s))"
  shows "hands f s = f (workers s w)" and "hands f (wat w pc s) = f (Some pc)"
proof -
  from assms have "threads (pool s) = [w]"
    by (cases "threads (pool s)") auto
  then show "hands f s = f (workers s w)" "hands f (wat w pc s) = f (Some pc)"
    by (simp_all add: hands_def wat_def)
qed

subsection \<open>Every task goes from the queue through one worker\<close>

lemma flow_inv_init: "flow_inv init"
  by (simp add: flow_inv_def init_def hands_def ThreadPool_Data_new_def)

lemma flow_inv_step:
  assumes "step l s = Some s'" and "threads_inv s" and "quiet_inv s" and "flow_inv s"
  shows "flow_inv s'"
proof -
  have D: "distinct (threads (pool s))"
    and B: "\<And>w. w \<in> set (threads (pool s)) \<Longrightarrow> w < next_worker s"
    and L: "\<And>w pc. workers s w = Some pc \<Longrightarrow> w \<in> set (threads (pool s))"
    and C: "\<And>c k w. callers s c = F_clear k \<Longrightarrow> workers s w = None"
    using assms(2) by (auto simp add: threads_inv_def)
  have K: "\<And>c k. callers s c = F_clear k \<Longrightarrow> tasks (pool s) = []"
    using assms(3) by (auto simp add: quiet_inv_def)
  have E: "enqueued (history s) = popped (history s) @ tasks (pool s)"
    and P: "\<And>P. length (filter P (popped (history s))) =
           length (filter P (retired (history s))) + length (filter P (in_hand s))"
    and X: "\<And>P. length (filter P (ended (history s))) =
           length (filter P (retired (history s))) + length (filter P (hands finished s))"
    using assms(4) by (auto simp add: flow_inv_def)
  from assms(1) show ?thesis
  proof (cases rule: step_cases)
    case (enter_addTask c t)
    show ?thesis unfolding enter_addTask(4)
      using enter_addTask(2) E P X
      by (simp add: flow_inv_def hands_pool hands_wat_same)
  next
    case (enter_setNumThreads_throw c n)
    show ?thesis unfolding enter_setNumThreads_throw(5)
      using enter_setNumThreads_throw(2) E P X
      by (simp add: flow_inv_def hands_pool hands_wat_same)
  next
    case (enter_setNumThreads c n)
    show ?thesis unfolding enter_setNumThreads(5)
      using enter_setNumThreads(2) E P X
      by (simp add: flow_inv_def hands_pool hands_wat_same)
  next
    case (enter_destroy_pool c)
    show ?thesis unfolding enter_destroy_pool(4)
      using enter_destroy_pool(2) E P X
      by (simp add: flow_inv_def hands_pool hands_wat_same)
  next
    case (enter_new_TaskGroup c g)
    show ?thesis unfolding enter_new_TaskGroup(4)
      using enter_new_TaskGroup(2) E P X
      by (simp add: flow_inv_def hands_pool hands_wat_same)
  next
    case (enter_delete_TaskGroup c g)
    show ?thesis unfolding enter_delete_TaskGroup(4)
      using enter_delete_TaskGroup(2) E P X
      by (simp add: flow_inv_def hands_pool hands_wat_same)
  next
    case (A_lock c t)
    show ?thesis unfolding A_lock(4)
      using A_lock(2) E P X
      by (simp add: flow_inv_def hands_pool hands_wat_same)
  next
    case (A_test c t)
    show ?thesis unfolding A_test(3)
      using A_test(2) E P X
      by (simp add: flow_inv_def hands_pool hands_wat_same)
  next
    case (A_execute c t)
    show ?thesis unfolding A_execute(3)
      using A_execute(2) E P X
      by (simp add: flow_inv_def hands_pool hands_wat_same)
  next
    case (A_executing c t)
    show ?thesis unfolding A_executing(3)
      using A_executing(2) E P X
      by (simp add: flow_inv_def hands_pool hands_wat_same)
  next
    case (A_delete c t)
    show ?thesis unfolding A_delete(3)
      using A_delete(2) E P X
      by (simp add: flow_inv_def hands_pool hands_wat_same)
  next
    case (A_lockq c t)
    show ?thesis unfolding A_lockq(4)
      using A_lockq(2) E P X
      by (simp add: flow_inv_def hands_pool hands_wat_same)
  next
    case (A_push c t d d')
    show ?thesis unfolding A_push(5)
      using A_push(2) E P X
      by (simp add: flow_inv_def hands_pool hands_wat_same)
  next
    case (A_post c t)
    show ?thesis unfolding A_post(3)
      using A_post(2) E P X
      by (simp add: flow_inv_def hands_pool hands_wat_same)
  next
    case (S_lock c n)
    show ?thesis unfolding S_lock(4)
      using S_lock(2) E P X
      by (simp add: flow_inv_def hands_pool hands_wat_same)
  next
    case (S_test_grow c n)
    show ?thesis unfolding S_test_grow(4)
      using S_test_grow(2) E P X
      by (simp add: flow_inv_def hands_pool hands_wat_same)
  next
    case (S_test_shrink c n)
    show ?thesis unfolding S_test_shrink(4)
      using S_test_shrink(2) E P X
      by (simp add: flow_inv_def hands_pool hands_wat_same)
  next
    case (S_test_same c n)
    show ?thesis unfolding S_test_same(4)
      using S_test_same(2) E P X
      by (simp add: flow_inv_def hands_pool hands_wat_same)
  next
    case (S_grow_add c n b)
    have "next_worker s \<notin> set (threads (pool s))"
      using B[of "next_worker s"] by auto
    then show ?thesis unfolding S_grow_add(4)
      using E P X by (simp add: flow_inv_def hands_spawn)
  next
    case (S_grow_done c n b)
    show ?thesis unfolding S_grow_done(4)
      using S_grow_done(2) E P X
      by (simp add: flow_inv_def hands_pool hands_wat_same)
  next
    case (F_stop c k)
    show ?thesis unfolding F_stop(3)
      using F_stop(2) E P X
      by (simp add: flow_inv_def hands_pool hands_wat_same)
  next
    case (F_loop_post c k i)
    show ?thesis unfolding F_loop_post(4)
      using F_loop_post(2) E P X
      by (simp add: flow_inv_def hands_pool hands_wat_same)
  next
    case (F_loop_done c k i)
    show ?thesis unfolding F_loop_done(4)
      using F_loop_done(2) E P X
      by (simp add: flow_inv_def hands_pool hands_wat_same)
  next
    case (F_wait c k i n)
    show ?thesis unfolding F_wait(4)
      using F_wait(2) E P X
      by (simp add: flow_inv_def hands_pool hands_wat_same)
  next
    case (F_join c k w ws)
    show ?thesis unfolding F_join(4)
      using E P X F_join(3) by (simp add: flow_inv_def hands_same)
  next
    case (F_join_done c k)
    show ?thesis unfolding F_join_done(4)
      using F_join_done(2) E P X
      by (simp add: flow_inv_def hands_pool hands_wat_same)
  next
    case (F_clear_regrow c n)
    have "hands f s = []" if "f None = []" for f :: "wpc option \<Rightarrow> Task list"
      using C[OF F_clear_regrow(2)] that by (simp add: hands_none)
    then have "in_hand s = []" "hands finished s = []"
      by simp_all
    then show ?thesis unfolding F_clear_regrow(3)
      using E P X K[OF F_clear_regrow(2)]
      by (simp add: flow_inv_def hands_no_threads)
  next
    case (F_clear_destroy c)
    have "hands f s = []" if "f None = []" for f :: "wpc option \<Rightarrow> Task list"
      using C[OF F_clear_destroy(2)] that by (simp add: hands_none)
    then have "in_hand s = []" "hands finished s = []"
      by simp_all
    then show ?thesis unfolding F_clear_destroy(3)
      using E P X K[OF F_clear_destroy(2)]
      by (simp add: flow_inv_def hands_no_threads)
  next
    case (P_lock c)
    show ?thesis unfolding P_lock(4)
      using P_lock(2) E P X
      by (simp add: flow_inv_def hands_pool hands_wat_same)
  next
    case (D_wait c g d)
    show ?thesis unfolding D_wait(5)
      using D_wait(2) E P X
      by (simp add: flow_inv_def hands_pool hands_wat_same)
  next
    case (W_start w)
    show ?thesis unfolding W_start(3)
      using W_start(2) E P X
      by (simp add: flow_inv_def hands_pool hands_wat_same)
  next
    case (W_wait w n)
    show ?thesis unfolding W_wait(4)
      using W_wait(2) E P X
      by (simp add: flow_inv_def hands_pool hands_wat_same)
  next
    case (W_lock w)
    show ?thesis unfolding W_lock(4)
      using W_lock(2) E P X
      by (simp add: flow_inv_def hands_pool hands_wat_same)
  next
    case (W_test_pop w t rest)
    from hands_wat [OF D L[OF W_test_pop(2)], of carried] W_test_pop(2)
    obtain xs ys where h: "in_hand s = xs @ ys"
      and h': "\<And>pc. in_hand (wat w pc s) = xs @ carried (Some pc) @ ys"
      by auto
    have "hands f s' = hands f (wat w (W_execute t) s)" for f :: "wpc option \<Rightarrow> Task list"
      unfolding W_test_pop(5) by (simp add: hands_def wat_def)
    with h' have "in_hand s' = xs @ [t] @ ys" "hands finished s' = hands finished s"
      using W_test_pop(2) by (simp_all add: hands_wat_same)
    with h E P X show ?thesis unfolding W_test_pop(5)
      using W_test_pop(4) by (simp add: flow_inv_def)
  next
    case (W_test_exit w)
    show ?thesis unfolding W_test_exit(5)
      using W_test_exit(2) E P X
      by (simp add: flow_inv_def hands_pool hands_wat_same)
  next
    case (W_test_again w)
    show ?thesis unfolding W_test_again(5)
      using W_test_again(2) E P X
      by (simp add: flow_inv_def hands_pool hands_wat_same)
  next
    case (W_execute w t)
    show ?thesis unfolding W_execute(3)
      using W_execute(2) E P X
      by (simp add: flow_inv_def hands_pool hands_wat_same)
  next
    case (W_executing w t)
    from hands_wat [OF D L[OF W_executing(2)], of finished] W_executing(2)
    obtain xs ys where h: "hands finished s = xs @ ys"
      and h': "\<And>pc. hands finished (wat w pc s) = xs @ finished (Some pc) @ ys"
      by auto
    have "hands f s' = hands f (wat w (W_reacquire t) s)" for f :: "wpc option \<Rightarrow> Task list"
      unfolding W_executing(3) by (simp add: hands_def wat_def)
    with h' have "hands finished s' = xs @ [t] @ ys" "in_hand s' = in_hand s"
      using W_executing(2) by (simp_all add: hands_wat_same)
    with h E P X show ?thesis unfolding W_executing(3)
      by (simp add: flow_inv_def)
  next
    case (W_reacquire w t)
    show ?thesis unfolding W_reacquire(4)
      using W_reacquire(2) E P X
      by (simp add: flow_inv_def hands_pool hands_wat_same)
  next
    case (W_retire w t d)
    from hands_wat [OF D L[OF W_retire(2)], of carried] W_retire(2)
    obtain xs ys where h: "in_hand s = xs @ [t] @ ys"
      and h': "\<And>pc. in_hand (wat w pc s) = xs @ carried (Some pc) @ ys"
      by auto
    from hands_wat [OF D L[OF W_retire(2)], of finished] W_retire(2)
    obtain us vs where f: "hands finished s = us @ [t] @ vs"
      and f': "\<And>pc. hands finished (wat w pc s) = us @ finished (Some pc) @ vs"
      by auto
    have "hands f s' = hands f (wat w W_wait s)" for f :: "wpc option \<Rightarrow> Task list"
      unfolding W_retire(4) by (simp add: hands_def wat_def)
    with h' f' have "in_hand s' = xs @ ys" "hands finished s' = us @ vs"
      by simp_all
    with h f E P X show ?thesis unfolding W_retire(4)
      by (simp add: flow_inv_def)
  qed
qed

lemma reachable_flow_inv: "reachable s \<Longrightarrow> flow_inv s"
proof (induction rule: reachable.induct)
  case reachable_init
  show ?case by (rule flow_inv_init)
next
  case (reachable_step s l s')
  then show ?case
    by (auto intro: flow_inv_step reachable_threads_inv reachable_quiet_inv)
qed

subsection \<open>The pending count of a group\<close>









lemma finished_le_carried:
  "length (filter P (finished x)) \<le> length (filter P (carried x))"
  by (cases x rule: finished.cases) simp_all

lemma hands_finished_le:
  "length (filter P (hands finished s)) \<le> length (filter P (in_hand s))"
proof -
  have "length (filter P (concat (map (\<lambda>w. finished (g w)) ws))) \<le>
        length (filter P (concat (map (\<lambda>w. carried (g w)) ws)))" for g :: "nat \<Rightarrow> wpc option" and ws
    by (induction ws) (simp_all add: add_mono finished_le_carried)
  then show ?thesis
    by (simp add: hands_def)
qed

lemma count_list_filter: "count_list xs x = length (filter (\<lambda>y. y = x) xs)"
  by (induction xs) simp_all

lemma reachable_exec: "reachable s \<Longrightarrow> exec ls s = Some s' \<Longrightarrow> reachable s'"
  by (induction ls arbitrary: s) (auto split: option.splits intro: reachable_step)

lemma reachable_run_of: "reachable (run_of ls)"
  by (auto simp: run_of_def split: option.splits intro: reachable_init reachable_exec)

subsection \<open>Shutdown and shrinking\<close>

text \<open>
  C7. In every state of every run: a worker thread's step that leaves the loop of
  \<open>run\<close> is taken with the stopping flag set and the queue empty; and when a caller is
  in \<open>finish\<close> before its \<open>tasks.clear ()\<close> (from \<open>setNumThreads\<close> or from the
  destructor of the pool), or in \<open>setNumThreads\<close> after \<open>finish\<close> has returned, the
  queue is empty, no worker carries a task, and every task was popped, executed to its
  end and retired as often as it was enqueued. So the \<open>clear\<close> discards nothing, and a
  shrinking \<open>setNumThreads\<close>, which holds \<open>threadMutex\<close> until it returns, returns
  after the completion of all tasks enqueued so far.
\<close>

theorem finish_discards_no_task:
  assumes "reachable s"
  shows "(step (Step (Worker w)) s = Some s' \<and> workers s' w = Some W_exited \<longrightarrow>
            stopping (pool s) \<and> tasks (pool s) = []) \<and>
         (callers s c = F_clear k \<or> callers s c = S_grow n True \<longrightarrow>
            tasks (pool s) = [] \<and> in_hand s = [] \<and>
            popped (history s) = enqueued (history s) \<and>
            (\<forall>t. count_list (ended (history s)) t = count_list (enqueued (history s)) t) \<and>
            (\<forall>t. count_list (retired (history s)) t = count_list (enqueued (history s)) t))"
proof (rule conjI; rule impI)
  assume a: "step (Step (Worker w)) s = Some s' \<and> workers s' w = Some W_exited"
  from reachable_threads_inv [OF assms] have n: "numTasks (pool s) = length (tasks (pool s))"
    by (simp add: threads_inv_def)
  from a obtain pc where pc: "workers s w = Some pc" "worker_step w pc s = Some s'"
    by (auto split: option.splits)
  with a n show "stopping (pool s) \<and> tasks (pool s) = []"
    by (cases pc) (auto split: if_splits option.splits list.splits)
next
  assume a: "callers s c = F_clear k \<or> callers s c = S_grow n True"
  from reachable_quiet_inv [OF assms] a
  have q: "tasks (pool s) = []"
    by (auto simp: quiet_inv_def)
  have c: "carried (workers s w) = []" for w
  proof (cases "workers s w")
    case None
    then show ?thesis by simp
  next
    case (Some pc)
    from a show ?thesis
    proof
      assume "callers s c = F_clear k"
      with reachable_threads_inv [OF assms] have "workers s w = None"
        by (auto simp add: threads_inv_def)
      with Some show ?thesis by simp
    next
      assume "callers s c = S_grow n True"
      with reachable_quiet_inv [OF assms] Some show ?thesis
        by (auto simp add: quiet_inv_def)
    qed
  qed
  from c have h: "in_hand s = []"
    by (simp add: hands_none)
  with hands_finished_le [of "\<lambda>t. True" s] have f: "hands finished s = []"
    by simp
  from reachable_flow_inv [OF assms]
  have E: "enqueued (history s) = popped (history s) @ tasks (pool s)"
    and P: "\<And>P. length (filter P (popped (history s))) =
           length (filter P (retired (history s))) + length (filter P (in_hand s))"
    and X: "\<And>P. length (filter P (ended (history s))) =
           length (filter P (retired (history s))) + length (filter P (hands finished s))"
    by (auto simp add: flow_inv_def)
  from E q have pe: "popped (history s) = enqueued (history s)" by simp
  have r: "\<forall>t. count_list (retired (history s)) t = count_list (enqueued (history s)) t"
    using P h pe by (simp add: count_list_filter)
  then have "\<forall>t. count_list (ended (history s)) t = count_list (enqueued (history s)) t"
    using X f by (simp add: count_list_filter)
  with q h pe r
  show "tasks (pool s) = [] \<and> in_hand s = [] \<and>
            popped (history s) = enqueued (history s) \<and>
            (\<forall>t. count_list (ended (history s)) t = count_list (enqueued (history s)) t) \<and>
            (\<forall>t. count_list (retired (history s)) t = count_list (enqueued (history s)) t)"
    by simp
qed

theorem finish_discards_no_task_witness:
  "callers (run_of sched_shrink) 0 = S_grow 0 True \<and>
   enqueued (history (run_of sched_shrink)) = [t1, t2] \<and>
   tasks (pool (run_of sched_shrink)) = [] \<and>
   count_list (ended (history (run_of sched_shrink))) t2 = 1 \<and>
   count_list (retired (history (run_of sched_shrink))) t2 = 1 \<and>
   workers (run_of (take 50 sched_shrink)) 1 = Some W_test \<and>
   workers (the (step (Step (Worker 1)) (run_of (take 50 sched_shrink)))) 1 = Some W_exited \<and>
   stopping (pool (run_of (take 50 sched_shrink)))"
proof -
  have c: "callers (run_of sched_shrink) 0 = S_grow 0 True"
    by code_simp
  have e: "enqueued (history (run_of sched_shrink)) = [t1, t2]"
    by code_simp
  have w: "workers (run_of (take 50 sched_shrink)) 1 = Some W_test"
    by code_simp
  have x: "workers (the (step (Step (Worker 1)) (run_of (take 50 sched_shrink)))) 1 = Some W_exited"
    by code_simp
  have n: "step (Step (Worker 1)) (run_of (take 50 sched_shrink)) \<noteq> None"
    by code_simp
  from finish_discards_no_task [OF reachable_run_of, of 1 "take 50 sched_shrink"
      "the (step (Step (Worker 1)) (run_of (take 50 sched_shrink)))" 0 Destroy 0] x n
  have "stopping (pool (run_of (take 50 sched_shrink)))"
    by auto
  with finish_discards_no_task [OF reachable_run_of, of 1 sched_shrink init 0 Destroy 0] c e w x
  show ?thesis
    by (simp add: t1_def t2_def)
qed

subsection \<open>The destructor of a group\<close>





subsection \<open>One worker\<close>

lemma latest_Nil [simp]: "latest [] = []"
  by (simp add: latest_def)

lemma latest_snoc [simp]: "latest (h @ [e]) = (if e = Cleared then [] else latest h @ [e])"
  by (simp add: latest_def)

lemma latest_suffix: "\<exists>xs. h = xs @ latest h"
  by (induction h rule: rev_induct) auto

lemma earlier_latest: "earlier h @ latest h = h"
proof -
  from latest_suffix [of h] obtain xs where x: "h = xs @ latest h" ..
  then have "length h - length (latest h) = length xs"
    by (metis add_diff_cancel_right' length_append)
  with x have "earlier h = xs"
    by (metis append_eq_conv_conj earlier_def)
  with x show ?thesis by simp
qed

lemma earlier_Nil [simp]: "earlier [] = []"
  by (simp add: earlier_def)

lemma earlier_snoc [simp]: "earlier (h @ [e]) = (if e = Cleared then h @ [e] else earlier h)"
proof (cases "e = Cleared")
  case True
  then show ?thesis by (simp add: earlier_def)
next
  case False
  have "earlier (h @ [e]) @ latest (h @ [e]) = earlier h @ latest h @ [e]"
    by (simp only: earlier_latest append_assoc [symmetric])
  with False show ?thesis by simp
qed

lemma settled_inv_init: "settled_inv init"
  by (simp add: settled_inv_def init_def)

lemma settled_at_clear:
  assumes "threads_inv s" and "quiet_inv s" and "flow_inv s" and "callers s c = F_clear k"
  shows "count_list (ended (history s)) t = count_list (enqueued (history s)) t"
proof -
  from assms(2,4) have q: "tasks (pool s) = []"
    by (auto simp: quiet_inv_def)
  from assms(1,4) have "\<And>w. workers s w = None"
    by (auto simp: threads_inv_def)
  then have h: "in_hand s = []"
    by (simp add: hands_none)
  with hands_finished_le [of "\<lambda>t. True" s] have f: "hands finished s = []"
    by simp
  from assms(3)
  have E: "enqueued (history s) = popped (history s) @ tasks (pool s)"
    and P: "\<And>P. length (filter P (popped (history s))) =
           length (filter P (retired (history s))) + length (filter P (in_hand s))"
    and X: "\<And>P. length (filter P (ended (history s))) =
           length (filter P (retired (history s))) + length (filter P (hands finished s))"
    by (auto simp add: flow_inv_def)
  from E q have "popped (history s) = enqueued (history s)" by simp
  with P [of "\<lambda>y. y = t"] X [of "\<lambda>y. y = t"] h f show ?thesis
    by (simp add: count_list_filter)
qed

lemma settled_inv_step:
  assumes "step l s = Some s'" and "threads_inv s" and "quiet_inv s" and "flow_inv s"
    and "settled_inv s"
  shows "settled_inv s'"
proof -
  have S: "\<And>t. count_list (ended (earlier (history s))) t =
               count_list (enqueued (earlier (history s))) t"
    using assms(5) by (simp add: settled_inv_def)
  note A = settled_at_clear [OF assms(2-4)]
  from assms(1) show ?thesis
  proof (cases rule: step_cases)
    case (enter_addTask c t)
    show ?thesis unfolding enter_addTask(4)
      using S by (simp add: settled_inv_def)
  next
    case (enter_setNumThreads_throw c n)
    show ?thesis unfolding enter_setNumThreads_throw(5)
      using S by (simp add: settled_inv_def)
  next
    case (enter_setNumThreads c n)
    show ?thesis unfolding enter_setNumThreads(5)
      using S by (simp add: settled_inv_def)
  next
    case (enter_destroy_pool c)
    show ?thesis unfolding enter_destroy_pool(4)
      using S by (simp add: settled_inv_def)
  next
    case (enter_new_TaskGroup c g)
    show ?thesis unfolding enter_new_TaskGroup(4)
      using S by (simp add: settled_inv_def)
  next
    case (enter_delete_TaskGroup c g)
    show ?thesis unfolding enter_delete_TaskGroup(4)
      using S by (simp add: settled_inv_def)
  next
    case (A_lock c t)
    show ?thesis unfolding A_lock(4)
      using S by (simp add: settled_inv_def)
  next
    case (A_test c t)
    show ?thesis unfolding A_test(3)
      using S by (simp add: settled_inv_def)
  next
    case (A_execute c t)
    show ?thesis unfolding A_execute(3)
      using S by (simp add: settled_inv_def)
  next
    case (A_executing c t)
    show ?thesis unfolding A_executing(3)
      using S by (simp add: settled_inv_def)
  next
    case (A_delete c t)
    show ?thesis unfolding A_delete(3)
      using S by (simp add: settled_inv_def)
  next
    case (A_lockq c t)
    show ?thesis unfolding A_lockq(4)
      using S by (simp add: settled_inv_def)
  next
    case (A_push c t d d')
    show ?thesis unfolding A_push(5)
      using S by (simp add: settled_inv_def)
  next
    case (A_post c t)
    show ?thesis unfolding A_post(3)
      using S by (simp add: settled_inv_def)
  next
    case (S_lock c n)
    show ?thesis unfolding S_lock(4)
      using S by (simp add: settled_inv_def)
  next
    case (S_test_grow c n)
    show ?thesis unfolding S_test_grow(4)
      using S by (simp add: settled_inv_def)
  next
    case (S_test_shrink c n)
    show ?thesis unfolding S_test_shrink(4)
      using S by (simp add: settled_inv_def)
  next
    case (S_test_same c n)
    show ?thesis unfolding S_test_same(4)
      using S by (simp add: settled_inv_def)
  next
    case (S_grow_add c n b)
    show ?thesis unfolding S_grow_add(4)
      using S by (simp add: settled_inv_def)
  next
    case (S_grow_done c n b)
    show ?thesis unfolding S_grow_done(4)
      using S by (simp add: settled_inv_def)
  next
    case (F_stop c k)
    show ?thesis unfolding F_stop(3)
      using S by (simp add: settled_inv_def)
  next
    case (F_loop_post c k i)
    show ?thesis unfolding F_loop_post(4)
      using S by (simp add: settled_inv_def)
  next
    case (F_loop_done c k i)
    show ?thesis unfolding F_loop_done(4)
      using S by (simp add: settled_inv_def)
  next
    case (F_wait c k i n)
    show ?thesis unfolding F_wait(4)
      using S by (simp add: settled_inv_def)
  next
    case (F_join c k w ws)
    show ?thesis unfolding F_join(4)
      using S by (simp add: settled_inv_def)
  next
    case (F_join_done c k)
    show ?thesis unfolding F_join_done(4)
      using S by (simp add: settled_inv_def)
  next
    case (F_clear_regrow c n)
    show ?thesis unfolding F_clear_regrow(3)
      using A [OF F_clear_regrow(2)] by (simp add: settled_inv_def)
  next
    case (F_clear_destroy c)
    show ?thesis unfolding F_clear_destroy(3)
      using A [OF F_clear_destroy(2)] by (simp add: settled_inv_def)
  next
    case (P_lock c)
    show ?thesis unfolding P_lock(4)
      using S by (simp add: settled_inv_def)
  next
    case (D_wait c g d)
    show ?thesis unfolding D_wait(5)
      using S by (simp add: settled_inv_def)
  next
    case (W_start w)
    show ?thesis unfolding W_start(3)
      using S by (simp add: settled_inv_def)
  next
    case (W_wait w n)
    show ?thesis unfolding W_wait(4)
      using S by (simp add: settled_inv_def)
  next
    case (W_lock w)
    show ?thesis unfolding W_lock(4)
      using S by (simp add: settled_inv_def)
  next
    case (W_test_pop w t rest)
    show ?thesis unfolding W_test_pop(5)
      using S by (simp add: settled_inv_def)
  next
    case (W_test_exit w)
    show ?thesis unfolding W_test_exit(5)
      using S by (simp add: settled_inv_def)
  next
    case (W_test_again w)
    show ?thesis unfolding W_test_again(5)
      using S by (simp add: settled_inv_def)
  next
    case (W_execute w t)
    show ?thesis unfolding W_execute(3)
      using S by (simp add: settled_inv_def)
  next
    case (W_executing w t)
    show ?thesis unfolding W_executing(3)
      using S by (simp add: settled_inv_def)
  next
    case (W_reacquire w t)
    show ?thesis unfolding W_reacquire(4)
      using S by (simp add: settled_inv_def)
  next
    case (W_retire w t d)
    show ?thesis unfolding W_retire(4)
      using S by (simp add: settled_inv_def)
  qed
qed

lemma reachable_settled_inv: "reachable s \<Longrightarrow> settled_inv s"
proof (induction rule: reachable.induct)
  case reachable_init
  show ?case by (rule settled_inv_init)
next
  case (reachable_step s l s')
  then show ?case
    by (auto intro: settled_inv_step reachable_threads_inv reachable_quiet_inv
        reachable_flow_inv)
qed

lemma hands_single_upd:
  assumes "length (threads (pool s)) \<le> 1" and "w \<in> set (threads (pool s))"
  shows "hands f (s\<lparr>workers := (workers s)(w := v)\<rparr>) = f v"
proof -
  from assms have "threads (pool s) = [w]"
    by (cases "threads (pool s)") auto
  then show ?thesis
    by (simp add: hands_def)
qed

lemma order_inv_init: "order_inv init"
  by (simp add: order_inv_def init_def hands_def ThreadPool_Data_new_def one_by_one_def)

lemma order_inv_step:
  assumes "step l s = Some s'" and "threads_inv s" and "order_inv s"
  shows "order_inv s'"
proof (cases "numThreads (pool s') \<le> 1")
  case False
  then show ?thesis by (simp add: order_inv_def)
next
  case True
  have B: "\<And>w. w \<in> set (threads (pool s)) \<Longrightarrow> w < next_worker s"
    and L: "\<And>w pc. workers s w = Some pc \<Longrightarrow> w \<in> set (threads (pool s))"
    and D: "numThreads (pool s) = length (threads (pool s))"
    using assms(2) by (auto simp add: threads_inv_def)
  have O: "enqueued (latest (history s)) = popped (latest (history s)) @ tasks (pool s)"
      "popped (latest (history s)) = retired (latest (history s)) @ in_hand s"
      "exec_events (latest (history s)) =
         one_by_one (retired (latest (history s))) @ hands logged_part s"
      "length (threads (pool s)) \<le> 1"
    if "numThreads (pool s) \<le> 1"
    using assms(3) that D by (simp_all add: order_inv_def)
  from assms(1) show ?thesis
  proof (cases rule: step_cases)
    case (enter_addTask c t)
    from True have m: "numThreads (pool s) \<le> 1"
      unfolding enter_addTask(4) by simp
    show ?thesis unfolding enter_addTask(4)
      using O(1-3) [OF m]
      by (simp add: order_inv_def hands_pool)
  next
    case (enter_setNumThreads_throw c n)
    from True have m: "numThreads (pool s) \<le> 1"
      unfolding enter_setNumThreads_throw(5) by simp
    show ?thesis unfolding enter_setNumThreads_throw(5)
      using O(1-3) [OF m]
      by (simp add: order_inv_def hands_pool)
  next
    case (enter_setNumThreads c n)
    from True have m: "numThreads (pool s) \<le> 1"
      unfolding enter_setNumThreads(5) by simp
    show ?thesis unfolding enter_setNumThreads(5)
      using O(1-3) [OF m]
      by (simp add: order_inv_def hands_pool)
  next
    case (enter_destroy_pool c)
    from True have m: "numThreads (pool s) \<le> 1"
      unfolding enter_destroy_pool(4) by simp
    show ?thesis unfolding enter_destroy_pool(4)
      using O(1-3) [OF m]
      by (simp add: order_inv_def hands_pool)
  next
    case (enter_new_TaskGroup c g)
    from True have m: "numThreads (pool s) \<le> 1"
      unfolding enter_new_TaskGroup(4) by simp
    show ?thesis unfolding enter_new_TaskGroup(4)
      using O(1-3) [OF m]
      by (simp add: order_inv_def hands_pool)
  next
    case (enter_delete_TaskGroup c g)
    from True have m: "numThreads (pool s) \<le> 1"
      unfolding enter_delete_TaskGroup(4) by simp
    show ?thesis unfolding enter_delete_TaskGroup(4)
      using O(1-3) [OF m]
      by (simp add: order_inv_def hands_pool)
  next
    case (A_lock c t)
    from True have m: "numThreads (pool s) \<le> 1"
      unfolding A_lock(4) by simp
    show ?thesis unfolding A_lock(4)
      using O(1-3) [OF m]
      by (simp add: order_inv_def hands_pool)
  next
    case (A_test c t)
    from True have m: "numThreads (pool s) \<le> 1"
      unfolding A_test(3) by simp
    show ?thesis unfolding A_test(3)
      using O(1-3) [OF m]
      by (simp add: order_inv_def hands_pool)
  next
    case (A_execute c t)
    from True have m: "numThreads (pool s) \<le> 1"
      unfolding A_execute(3) by simp
    show ?thesis unfolding A_execute(3)
      using O(1-3) [OF m]
      by (simp add: order_inv_def hands_pool)
  next
    case (A_executing c t)
    from True have m: "numThreads (pool s) \<le> 1"
      unfolding A_executing(3) by simp
    show ?thesis unfolding A_executing(3)
      using O(1-3) [OF m]
      by (simp add: order_inv_def hands_pool)
  next
    case (A_delete c t)
    from True have m: "numThreads (pool s) \<le> 1"
      unfolding A_delete(3) by simp
    show ?thesis unfolding A_delete(3)
      using O(1-3) [OF m]
      by (simp add: order_inv_def hands_pool)
  next
    case (A_lockq c t)
    from True have m: "numThreads (pool s) \<le> 1"
      unfolding A_lockq(4) by simp
    show ?thesis unfolding A_lockq(4)
      using O(1-3) [OF m]
      by (simp add: order_inv_def hands_pool)
  next
    case (A_push c t d d')
    from True have m: "numThreads (pool s) \<le> 1"
      unfolding A_push(5) by simp
    show ?thesis unfolding A_push(5)
      using O(1-3) [OF m]
      by (simp add: order_inv_def hands_pool)
  next
    case (A_post c t)
    from True have m: "numThreads (pool s) \<le> 1"
      unfolding A_post(3) by simp
    show ?thesis unfolding A_post(3)
      using O(1-3) [OF m]
      by (simp add: order_inv_def hands_pool)
  next
    case (S_lock c n)
    from True have m: "numThreads (pool s) \<le> 1"
      unfolding S_lock(4) by simp
    show ?thesis unfolding S_lock(4)
      using O(1-3) [OF m]
      by (simp add: order_inv_def hands_pool)
  next
    case (S_test_grow c n)
    from True have m: "numThreads (pool s) \<le> 1"
      unfolding S_test_grow(4) by simp
    show ?thesis unfolding S_test_grow(4)
      using O(1-3) [OF m]
      by (simp add: order_inv_def hands_pool)
  next
    case (S_test_shrink c n)
    from True have m: "numThreads (pool s) \<le> 1"
      unfolding S_test_shrink(4) by simp
    show ?thesis unfolding S_test_shrink(4)
      using O(1-3) [OF m]
      by (simp add: order_inv_def hands_pool)
  next
    case (S_test_same c n)
    from True have m: "numThreads (pool s) \<le> 1"
      unfolding S_test_same(4) by simp
    show ?thesis unfolding S_test_same(4)
      using O(1-3) [OF m]
      by (simp add: order_inv_def hands_pool)
  next
    case (S_grow_add c n b)
    from True have m: "numThreads (pool s) \<le> 1"
      unfolding S_grow_add(4) by simp
    have "next_worker s \<notin> set (threads (pool s))"
      using B[of "next_worker s"] by auto
    then show ?thesis unfolding S_grow_add(4)
      using O(1-3) [OF m] by (simp add: order_inv_def hands_spawn)
  next
    case (S_grow_done c n b)
    from True have m: "numThreads (pool s) \<le> 1"
      unfolding S_grow_done(4) by simp
    show ?thesis unfolding S_grow_done(4)
      using O(1-3) [OF m]
      by (simp add: order_inv_def hands_pool)
  next
    case (F_stop c k)
    from True have m: "numThreads (pool s) \<le> 1"
      unfolding F_stop(3) by simp
    show ?thesis unfolding F_stop(3)
      using O(1-3) [OF m]
      by (simp add: order_inv_def hands_pool)
  next
    case (F_loop_post c k i)
    from True have m: "numThreads (pool s) \<le> 1"
      unfolding F_loop_post(4) by simp
    show ?thesis unfolding F_loop_post(4)
      using O(1-3) [OF m]
      by (simp add: order_inv_def hands_pool)
  next
    case (F_loop_done c k i)
    from True have m: "numThreads (pool s) \<le> 1"
      unfolding F_loop_done(4) by simp
    show ?thesis unfolding F_loop_done(4)
      using O(1-3) [OF m]
      by (simp add: order_inv_def hands_pool)
  next
    case (F_wait c k i n)
    from True have m: "numThreads (pool s) \<le> 1"
      unfolding F_wait(4) by simp
    show ?thesis unfolding F_wait(4)
      using O(1-3) [OF m]
      by (simp add: order_inv_def hands_pool)
  next
    case (F_join c k w ws)
    from True have m: "numThreads (pool s) \<le> 1"
      unfolding F_join(4) by simp
    from L [OF F_join(3)] have W: "w \<in> set (threads (pool s))" .
    note H = hands_single(1) [OF O(4) [OF m] W, unfolded F_join(3)]
    show ?thesis unfolding F_join(4)
      using O [OF m] W
      by (simp add: order_inv_def H hands_single_upd)
  next
    case (F_join_done c k)
    from True have m: "numThreads (pool s) \<le> 1"
      unfolding F_join_done(4) by simp
    show ?thesis unfolding F_join_done(4)
      using O(1-3) [OF m]
      by (simp add: order_inv_def hands_pool)
  next
    case (F_clear_regrow c n)
    show ?thesis unfolding F_clear_regrow(3)
      by (simp add: order_inv_def hands_no_threads one_by_one_def)
  next
    case (F_clear_destroy c)
    show ?thesis unfolding F_clear_destroy(3)
      by (simp add: order_inv_def hands_no_threads one_by_one_def)
  next
    case (P_lock c)
    from True have m: "numThreads (pool s) \<le> 1"
      unfolding P_lock(4) by simp
    show ?thesis unfolding P_lock(4)
      using O(1-3) [OF m]
      by (simp add: order_inv_def hands_pool)
  next
    case (D_wait c g d)
    from True have m: "numThreads (pool s) \<le> 1"
      unfolding D_wait(5) by simp
    show ?thesis unfolding D_wait(5)
      using O(1-3) [OF m]
      by (simp add: order_inv_def hands_pool)
  next
    case (W_start w)
    from True have m: "numThreads (pool s) \<le> 1"
      unfolding W_start(3) by simp
    from L [OF W_start(2)] have W: "w \<in> set (threads (pool s))" .
    note H = hands_single(1) [OF O(4) [OF m] W, unfolded W_start(2)]
    show ?thesis unfolding W_start(3)
      using O [OF m] W W_start(2-2)
      by (simp add: order_inv_def H hands_single(2) one_by_one_def)
  next
    case (W_wait w n)
    from True have m: "numThreads (pool s) \<le> 1"
      unfolding W_wait(4) by simp
    from L [OF W_wait(2)] have W: "w \<in> set (threads (pool s))" .
    note H = hands_single(1) [OF O(4) [OF m] W, unfolded W_wait(2)]
    show ?thesis unfolding W_wait(4)
      using O [OF m] W W_wait(2-3)
      by (simp add: order_inv_def H hands_single(2) one_by_one_def)
  next
    case (W_lock w)
    from True have m: "numThreads (pool s) \<le> 1"
      unfolding W_lock(4) by simp
    from L [OF W_lock(2)] have W: "w \<in> set (threads (pool s))" .
    note H = hands_single(1) [OF O(4) [OF m] W, unfolded W_lock(2)]
    show ?thesis unfolding W_lock(4)
      using O [OF m] W W_lock(2-3)
      by (simp add: order_inv_def H hands_single(2) one_by_one_def)
  next
    case (W_test_pop w t rest)
    from True have m: "numThreads (pool s) \<le> 1"
      unfolding W_test_pop(5) by simp
    from L [OF W_test_pop(2)] have W: "w \<in> set (threads (pool s))" .
    note H = hands_single(1) [OF O(4) [OF m] W, unfolded W_test_pop(2)]
    show ?thesis unfolding W_test_pop(5)
      using O [OF m] W W_test_pop(2-4)
      by (simp add: order_inv_def H hands_single(2) one_by_one_def)
  next
    case (W_test_exit w)
    from True have m: "numThreads (pool s) \<le> 1"
      unfolding W_test_exit(5) by simp
    from L [OF W_test_exit(2)] have W: "w \<in> set (threads (pool s))" .
    note H = hands_single(1) [OF O(4) [OF m] W, unfolded W_test_exit(2)]
    show ?thesis unfolding W_test_exit(5)
      using O [OF m] W W_test_exit(2-4)
      by (simp add: order_inv_def H hands_single(2) one_by_one_def)
  next
    case (W_test_again w)
    from True have m: "numThreads (pool s) \<le> 1"
      unfolding W_test_again(5) by simp
    from L [OF W_test_again(2)] have W: "w \<in> set (threads (pool s))" .
    note H = hands_single(1) [OF O(4) [OF m] W, unfolded W_test_again(2)]
    show ?thesis unfolding W_test_again(5)
      using O [OF m] W W_test_again(2-4)
      by (simp add: order_inv_def H hands_single(2) one_by_one_def)
  next
    case (W_execute w t)
    from True have m: "numThreads (pool s) \<le> 1"
      unfolding W_execute(3) by simp
    from L [OF W_execute(2)] have W: "w \<in> set (threads (pool s))" .
    note H = hands_single(1) [OF O(4) [OF m] W, unfolded W_execute(2)]
    show ?thesis unfolding W_execute(3)
      using O [OF m] W W_execute(2-2)
      by (simp add: order_inv_def H hands_single(2) one_by_one_def)
  next
    case (W_executing w t)
    from True have m: "numThreads (pool s) \<le> 1"
      unfolding W_executing(3) by simp
    from L [OF W_executing(2)] have W: "w \<in> set (threads (pool s))" .
    note H = hands_single(1) [OF O(4) [OF m] W, unfolded W_executing(2)]
    show ?thesis unfolding W_executing(3)
      using O [OF m] W W_executing(2-2)
      by (simp add: order_inv_def H hands_single(2) one_by_one_def)
  next
    case (W_reacquire w t)
    from True have m: "numThreads (pool s) \<le> 1"
      unfolding W_reacquire(4) by simp
    from L [OF W_reacquire(2)] have W: "w \<in> set (threads (pool s))" .
    note H = hands_single(1) [OF O(4) [OF m] W, unfolded W_reacquire(2)]
    show ?thesis unfolding W_reacquire(4)
      using O [OF m] W W_reacquire(2-3)
      by (simp add: order_inv_def H hands_single(2) one_by_one_def)
  next
    case (W_retire w t d)
    from True have m: "numThreads (pool s) \<le> 1"
      unfolding W_retire(4) by simp
    from L [OF W_retire(2)] have W: "w \<in> set (threads (pool s))" .
    note H = hands_single(1) [OF O(4) [OF m] W, unfolded W_retire(2)]
    show ?thesis unfolding W_retire(4)
      using O [OF m] W W_retire(2-3)
      by (simp add: order_inv_def H hands_single(2) one_by_one_def)
  qed
qed

lemma reachable_order_inv: "reachable s \<Longrightarrow> order_inv s"
proof (induction rule: reachable.induct)
  case reachable_init
  show ?case by (rule order_inv_init)
next
  case (reachable_step s l s')
  then show ?case
    by (auto intro: order_inv_step reachable_threads_inv)
qed

lemma logged_part_prefix: "\<exists>zs. one_by_one (carried x) = logged_part x @ zs"
  by (cases x rule: logged_part.cases) (simp_all add: one_by_one_def)

text \<open>
  C6. In every state of every run in which the pool has at most one worker thread,
  whatever it had before: of what happened since \<open>finish\<close> last cleared the pool, the
  executions by the worker thread, each the begin and the end of \<open>execute\<close>, are an
  initial part of: the first task enqueued begun, then ended; the second task enqueued
  begun, then ended; and so on in the order of \<open>tasks.push_back\<close>. And in every state,
  each task enqueued before that clear was executed to its end before it. So of two
  tasks submitted in that order to a pool that has one worker thread, the first has
  ended when the second begins.
\<close>

theorem single_worker_fifo:
  assumes "reachable s"
  shows "(numThreads (pool s) \<le> 1 \<longrightarrow>
            exec_events (latest (history s)) =
              take (length (exec_events (latest (history s))))
                (one_by_one (enqueued (latest (history s))))) \<and>
         (\<forall>t. count_list (ended (earlier (history s))) t =
              count_list (enqueued (earlier (history s))) t)"
proof (rule conjI; (rule impI)?)
  assume m: "numThreads (pool s) \<le> 1"
  from reachable_order_inv [OF assms] m
  have O1: "enqueued (latest (history s)) = popped (latest (history s)) @ tasks (pool s)"
    and O2: "popped (latest (history s)) = retired (latest (history s)) @ in_hand s"
    and O3: "exec_events (latest (history s)) =
               one_by_one (retired (latest (history s))) @ hands logged_part s"
    by (simp_all add: order_inv_def)
  from reachable_threads_inv [OF assms] m
  have T: "length (threads (pool s)) \<le> 1"
    by (simp add: threads_inv_def)
  have "\<exists>zs. one_by_one (in_hand s) = hands logged_part s @ zs"
  proof (cases "threads (pool s)")
    case Nil
    then show ?thesis by (simp add: hands_def one_by_one_def)
  next
    case (Cons w ws)
    with T have "threads (pool s) = [w]" by simp
    then show ?thesis
      using logged_part_prefix [of "workers s w"] by (simp add: hands_def)
  qed
  then obtain zs where "one_by_one (in_hand s) = hands logged_part s @ zs" ..
  with O1 O2 O3
  have "one_by_one (enqueued (latest (history s))) =
          exec_events (latest (history s)) @ zs @ one_by_one (tasks (pool s))"
    by simp
  then show "exec_events (latest (history s)) =
              take (length (exec_events (latest (history s))))
                (one_by_one (enqueued (latest (history s))))"
    by simp
next
  from reachable_settled_inv [OF assms]
  show "\<forall>t. count_list (ended (earlier (history s))) t =
              count_list (enqueued (earlier (history s))) t"
    by (simp add: settled_inv_def)
qed

theorem single_worker_fifo_witness:
  "runs sched_single \<and>
   numThreads (pool (run_of (take 26 sched_single))) = 2 \<and>
   numThreads (pool (run_of sched_single)) \<le> 1 \<and>
   enqueued (earlier (history (run_of sched_single))) = [t1, t2] \<and>
   count_list (ended (earlier (history (run_of sched_single)))) t1 = 1 \<and>
   enqueued (latest (history (run_of sched_single))) = [t3, t4] \<and>
   exec_events (latest (history (run_of sched_single))) =
     [Begun t3, Ended t3, Begun t4, Ended t4] \<and>
   numThreads (pool (run_of (take 80 sched_single))) \<le> 1 \<and>
   exec_events (latest (history (run_of (take 80 sched_single)))) =
     [Begun t3, Ended t3, Begun t4]"
proof -
  have r: "runs sched_single"
    by code_simp
  have b: "numThreads (pool (run_of (take 26 sched_single))) = 2"
    by code_simp
  have m: "numThreads (pool (run_of sched_single)) \<le> 1"
    by code_simp
  have o: "enqueued (earlier (history (run_of sched_single))) = [t1, t2]"
    by code_simp
  have e: "enqueued (latest (history (run_of sched_single))) = [t3, t4]"
    by code_simp
  have n: "length (exec_events (latest (history (run_of sched_single)))) = 4"
    by code_simp
  have m': "numThreads (pool (run_of (take 80 sched_single))) \<le> 1"
    by code_simp
  have e': "enqueued (latest (history (run_of (take 80 sched_single)))) = [t3, t4]"
    by code_simp
  have n': "length (exec_events (latest (history (run_of (take 80 sched_single))))) = 3"
    by code_simp
  note A = single_worker_fifo [OF reachable_run_of, of sched_single]
  note A' = single_worker_fifo [OF reachable_run_of, of "take 80 sched_single"]
  from A have "count_list (ended (earlier (history (run_of sched_single)))) t1 =
      count_list (enqueued (earlier (history (run_of sched_single)))) t1"
    by blast
  with o have c: "count_list (ended (earlier (history (run_of sched_single)))) t1 = 1"
    by (simp add: t1_def t2_def)
  from A m e n have x: "exec_events (latest (history (run_of sched_single))) =
      [Begun t3, Ended t3, Begun t4, Ended t4]"
    by (simp add: one_by_one_def)
  from A' m' e' n' have x': "exec_events (latest (history (run_of (take 80 sched_single)))) =
      [Begun t3, Ended t3, Begun t4]"
    by (simp add: one_by_one_def)
  from r b m o c e x m' x' show ?thesis
    by simp
qed

end
